theory Spec2Isabelle
  imports Main "HOL-Library.Word" "HOL-Library.Monad_Syntax" "HOL-Library.Sublist"
begin

unbundle bit_operations_syntax

section \<open>The generalized Fibonacci allocator (mem.c, 64-bit build)\<close>

text \<open>
  The embedding follows the latest \<^verbatim>\<open>mem.c\<close> of the repository, compiled for
  \<^verbatim>\<open>__x86_64__\<close>: \<^verbatim>\<open>uintptr_t\<close> and pointers are 64-bit words, \<^verbatim>\<open>unsigned int\<close>
  is a 32-bit word.  Memory is one flat store from byte addresses to machine words; an
  item is addressed by the address of its header word, its \<^verbatim>\<open>prev\<close> link is the word at
  offset 8 and its \<^verbatim>\<open>next\<close> link the word at offset 16.  The cells \<^verbatim>\<open>array.data[0]\<close> ..
  \<^verbatim>\<open>array.data[array.size - 1]\<close> are kept as a list; the address of their storage is
  carried along in \<open>array_data\<close>, since the storage is itself a block of the allocator.

  A run ends with \<open>None\<close> when the C program would index the cell array outside its
  initialised cells, when the host allocator has no memory left, or when the fuel of a
  loop is used up.
\<close>

type_synonym addr = "64 word"
type_synonym heap = "addr \<Rightarrow> 64 word"

abbreviation (input) MIN_SIZE :: "64 word" where "MIN_SIZE \<equiv> 3"
abbreviation (input) SIZE_1 :: "64 word" where "SIZE_1 \<equiv> 4"
abbreviation (input) SIZE_2 :: "64 word" where "SIZE_2 \<equiv> 5"
abbreviation (input) SIZE_3 :: "64 word" where "SIZE_3 \<equiv> 7"
abbreviation (input) DATA_INIT_BLOCKS :: "32 word" where "DATA_INIT_BLOCKS \<equiv> 69"
abbreviation (input) ARRAY_INIT_SIZE :: "32 word" where "ARRAY_INIT_SIZE \<equiv> 11"
abbreviation (input) ARRAY_INIT_CAPACITY :: "32 word" where "ARRAY_INIT_CAPACITY \<equiv> 16"
abbreviation (input) BLOCK_SIZE :: "'a::len word" where "BLOCK_SIZE \<equiv> 8"
abbreviation (input) POINTER_SIZE :: "64 word" where "POINTER_SIZE \<equiv> 8"
abbreviation (input) HEADER_SIZE :: "64 word" where "HEADER_SIZE \<equiv> POINTER_SIZE"
abbreviation (input) LEFT :: bool where "LEFT \<equiv> False"
abbreviation (input) RIGHT :: bool where "RIGHT \<equiv> True"
abbreviation (input) NULL :: addr where "NULL \<equiv> 0"

definition BLOCKS :: "64 word \<Rightarrow> 64 word" where
  "BLOCKS n = (n + BLOCK_SIZE - 1) div BLOCK_SIZE"

subsection \<open>Item headers and links\<close>

definition item_get_size :: "heap \<Rightarrow> addr \<Rightarrow> 64 word" where
  "item_get_size h item = drop_bit 3 (h item)"

definition item_set_size :: "heap \<Rightarrow> addr \<Rightarrow> 64 word \<Rightarrow> heap" where
  "item_set_size h item sz =
     (let size_field = h item;
          flags = size_field AND 7;
          new_size_field = flags OR push_bit 3 sz
      in h(item := new_size_field))"

definition item_is_in_use :: "heap \<Rightarrow> addr \<Rightarrow> bool" where
  "item_is_in_use h item = (h item AND 4 \<noteq> 0)"

definition item_set_in_use :: "heap \<Rightarrow> addr \<Rightarrow> bool \<Rightarrow> heap" where
  "item_set_in_use h item in_use =
     (let size_field = h item AND NOT 4;
          tmp = (if in_use then 4 else 0);
          new_size_field = size_field OR tmp
      in h(item := new_size_field))"

definition item_get_lr_bit :: "heap \<Rightarrow> addr \<Rightarrow> bool" where
  "item_get_lr_bit h item = (h item AND 2 \<noteq> 0)"

definition item_set_lr_bit :: "heap \<Rightarrow> addr \<Rightarrow> bool \<Rightarrow> heap" where
  "item_set_lr_bit h item in_use =
     (let size_field = h item AND NOT 2;
          tmp = (if in_use then 2 else 0);
          new_size_field = size_field OR tmp
      in h(item := new_size_field))"

definition item_get_inh_bit :: "heap \<Rightarrow> addr \<Rightarrow> bool" where
  "item_get_inh_bit h item = (h item AND 1 \<noteq> 0)"

definition item_set_inh_bit :: "heap \<Rightarrow> addr \<Rightarrow> bool \<Rightarrow> heap" where
  "item_set_inh_bit h item in_use =
     (let size_field = h item AND NOT 1;
          tmp = (if in_use then 1 else 0);
          new_size_field = size_field OR tmp
      in h(item := new_size_field))"

definition item_get_area :: "addr \<Rightarrow> addr" where
  "item_get_area item = item + POINTER_SIZE"

definition item_from_area :: "addr \<Rightarrow> addr" where
  "item_from_area area = area - POINTER_SIZE"

definition item_get_prev :: "heap \<Rightarrow> addr \<Rightarrow> addr" where
  "item_get_prev h item = h (item + POINTER_SIZE)"

definition item_set_prev :: "heap \<Rightarrow> addr \<Rightarrow> addr \<Rightarrow> heap" where
  "item_set_prev h item prev = h(item + POINTER_SIZE := prev)"

definition item_get_next :: "heap \<Rightarrow> addr \<Rightarrow> addr" where
  "item_get_next h item = h (item + 2 * POINTER_SIZE)"

definition item_set_next :: "heap \<Rightarrow> addr \<Rightarrow> addr \<Rightarrow> heap" where
  "item_set_next h item next = h(item + 2 * POINTER_SIZE := next)"

subsection \<open>Cells, the array and the allocator state\<close>

record cell =
  cell_size :: "64 word"
  cell_items :: addr

text \<open>
  \<open>host_brk\<close> and \<open>host_regions\<close> are the host allocator behind \<^verbatim>\<open>malloc\<close>: regions are
  handed out one after the other and never reused (the engine calls \<^verbatim>\<open>free\<close> only in
  \<^verbatim>\<open>mem_finalize\<close>); their contents are whatever the store held before.
\<close>

record state =
  heap :: heap
  array_cells :: "cell list"
  array_data :: addr
  array_size :: "32 word"
  array_capacity :: "32 word"
  mem_list :: addr
  host_brk :: addr
  host_regions :: "(addr \<times> 64 word) list"

definition data_at :: "cell list \<Rightarrow> 32 word \<Rightarrow> cell option" where
  "data_at d i = (if unat i < length d then Some (d ! unat i) else None)"

definition data_set_items :: "cell list \<Rightarrow> 32 word \<Rightarrow> addr \<Rightarrow> cell list" where
  "data_set_items d i p = d[unat i := (d ! unat i)\<lparr>cell_items := p\<rparr>]"

definition malloc :: "64 word \<Rightarrow> state \<Rightarrow> (addr \<times> state) option" where
  "malloc bytes s =
     (if unat (host_brk s) + unat bytes < 2 ^ 64
      then Some (host_brk s,
                 s\<lparr>host_brk := host_brk s + bytes,
                   host_regions := (host_brk s, bytes) # host_regions s\<rparr>)
      else None)"

subsection \<open>Free lists\<close>

definition take_item :: "state \<Rightarrow> 32 word \<Rightarrow> (addr \<times> state) option" where
  "take_item s i = do {
     c \<leftarrow> data_at (array_cells s) i;
     let next = item_get_next (heap s) (cell_items c);
     let h = (if next \<noteq> NULL then item_set_prev (heap s) next NULL else heap s);
     let item = cell_items c;
     Some (item, s\<lparr>heap := h, array_cells := data_set_items (array_cells s) i next\<rparr>)
   }"

definition insert_item :: "state \<Rightarrow> 32 word \<Rightarrow> addr \<Rightarrow> state option" where
  "insert_item s i item = do {
     c \<leftarrow> data_at (array_cells s) i;
     let h = item_set_next (heap s) item (cell_items c);
     let h = (if cell_items c \<noteq> NULL then item_set_prev h (cell_items c) item else h);
     let h = item_set_prev h item NULL;
     Some (s\<lparr>heap := h, array_cells := data_set_items (array_cells s) i item\<rparr>)
   }"

subsection \<open>Splitting\<close>

text \<open>The eight header writes of one iteration of \<^verbatim>\<open>split_item\<close>.\<close>

definition split_headers :: "heap \<Rightarrow> addr \<Rightarrow> 64 word \<Rightarrow> 64 word \<Rightarrow> heap" where
  "split_headers h cur szl szr =
     (let inh_l = item_get_lr_bit h cur;
          inh_r = item_get_inh_bit h cur;
          left = cur;
          right = cur + szl * BLOCK_SIZE;
          h = item_set_size h left szl;
          h = item_set_size h right szr;
          h = item_set_lr_bit h left LEFT;
          h = item_set_lr_bit h right RIGHT;
          h = item_set_in_use h left False;
          h = item_set_in_use h right False;
          h = item_set_inh_bit h left inh_l;
          h = item_set_inh_bit h right inh_r
      in h)"

text \<open>
  The body of the loop of \<^verbatim>\<open>split_item\<close>: it returns the new \<open>i\<close> and \<open>cur\<close>.
\<close>

definition split_step :: "state \<Rightarrow> 32 word \<Rightarrow> addr \<Rightarrow> 64 word \<Rightarrow> (32 word \<times> addr \<times> state) option" where
  "split_step s i cur n = do {
     c4 \<leftarrow> data_at (array_cells s) (i - 4);
     c1 \<leftarrow> data_at (array_cells s) (i - 1);
     let szl = cell_size c4;
     let szr = cell_size c1;
     let left = cur;
     let right = cur + szl * BLOCK_SIZE;
     let s = s\<lparr>heap := split_headers (heap s) cur szl szr\<rparr>;
     let i_left = i - 4;
     let i_right = i - 1;
     if szl \<ge> n
     then do { s \<leftarrow> insert_item s i_right right; Some (i_left, left, s) }
     else do { s \<leftarrow> insert_item s i_left left; Some (i_right, right, s) }
   }"

function split_item :: "state \<Rightarrow> 32 word \<Rightarrow> addr \<Rightarrow> 64 word \<Rightarrow> (addr \<times> state) option" where
  "split_item s i item n =
     (case data_at (array_cells s) (i - 1) of
        None \<Rightarrow> None
      | Some c1 \<Rightarrow>
          if cell_size c1 \<ge> n \<and> i > 4
          then (case split_step s i item n of
                  None \<Rightarrow> None
                | Some (i', cur, s') \<Rightarrow> split_item s' i' cur n)
          else Some (item, s))"
  by pat_completeness auto

termination
proof (relation "measure (\<lambda>(s, i, item, n). unat i)")
  show "wf (measure (\<lambda>(s, i, item, n). unat i))"
    by simp
next
  fix s :: state and i i' :: "32 word" and item cur :: addr and n :: "64 word"
    and c1 :: cell and r :: "32 word \<times> addr \<times> state" and q :: "addr \<times> state" and s' :: state
  assume gt: "n \<le> cell_size c1 \<and> 4 < i"
    and step: "split_step s i item n = Some r" and r: "(i', q) = r" and q: "(cur, s') = q"
  from step r q have "i' = i - 4 \<or> i' = i - 1"
    by (auto simp: split_step_def Let_def split: bind_splits if_splits)
  moreover from gt have "unat (i - 4) < unat i" and "unat (i - 1) < unat i"
    by (simp_all add: unat_sub word_le_nat_alt word_less_nat_alt less_imp_le)
  ultimately show "((s', i', cur, n), (s, i, item, n)) \<in> measure (\<lambda>(s, i, item, n). unat i)"
    by auto
qed

declare split_item.simps [simp del]

subsection \<open>Chunks from the host\<close>

definition alloc_new_item :: "32 word \<Rightarrow> state \<Rightarrow> (addr \<times> state) option" where
  "alloc_new_item n s = do {
     (tmp, s) \<leftarrow> malloc (ucast (BLOCK_SIZE * n) + 2 * POINTER_SIZE) s;
     let h = (heap s)(tmp := mem_list s);
     let s = s\<lparr>mem_list := tmp\<rparr>;
     let fake_right = tmp + ucast (BLOCK_SIZE * n) + POINTER_SIZE;
     let h = item_set_size h fake_right 0;
     let h = item_set_lr_bit h fake_right RIGHT;
     let h = item_set_in_use h fake_right True;
     let item = tmp + POINTER_SIZE;
     let h = item_set_size h item (ucast n);
     let h = item_set_lr_bit h item LEFT;
     Some (item, s\<lparr>heap := h\<rparr>)
   }"

subsection \<open>Initialisation\<close>

function array_init_loop :: "32 word \<Rightarrow> 64 word \<Rightarrow> cell list \<Rightarrow> cell list option" where
  "array_init_loop i prev d =
     (if i < ARRAY_INIT_SIZE
      then (case data_at d (i - 4) of
              None \<Rightarrow> None
            | Some c4 \<Rightarrow>
                array_init_loop (i + 1) (prev + cell_size c4)
                  (d @ [\<lparr>cell_size = prev + cell_size c4, cell_items = NULL\<rparr>]))
      else Some d)"
  by pat_completeness auto
termination
proof (relation "measure (\<lambda>(i, prev, d). unat ARRAY_INIT_SIZE - unat i)")
  show "wf (measure (\<lambda>(i, prev, d). unat ARRAY_INIT_SIZE - unat i))"
    by simp
next
  fix i :: "32 word" and prev :: "64 word" and d :: "cell list" and c4 :: cell
  assume "i < ARRAY_INIT_SIZE"
  then have "unat i < 11"
    by (simp add: word_less_nat_alt)
  then have "unat (i + 1) = unat i + 1"
    by (simp add: unat_word_ariths)
  with \<open>unat i < 11\<close>
  show "((i + 1, prev + cell_size c4,
          d @ [\<lparr>cell_size = prev + cell_size c4, cell_items = NULL\<rparr>]), (i, prev, d))
        \<in> measure (\<lambda>(i, prev, d). unat ARRAY_INIT_SIZE - unat i)"
    by simp
qed

declare array_init_loop.simps [simp del]

definition array_init :: "state \<Rightarrow> state option" where
  "array_init s = do {
     (data_item, s) \<leftarrow> alloc_new_item DATA_INIT_BLOCKS s;
     let s = s\<lparr>heap := item_set_in_use (heap s) data_item True\<rparr>;
     let s = s\<lparr>array_data := item_get_area data_item\<rparr>;
     let d = [\<lparr>cell_size = MIN_SIZE, cell_items = NULL\<rparr>,
              \<lparr>cell_size = SIZE_1, cell_items = NULL\<rparr>,
              \<lparr>cell_size = SIZE_2, cell_items = NULL\<rparr>,
              \<lparr>cell_size = SIZE_3, cell_items = NULL\<rparr>];
     let prev = cell_size (d ! 3);
     d \<leftarrow> array_init_loop 4 prev d;
     Some (s\<lparr>array_cells := d, array_size := ARRAY_INIT_SIZE,
             array_capacity := ARRAY_INIT_CAPACITY\<rparr>)
   }"

text \<open>
  \<^verbatim>\<open>mem_init\<close> starts from the host's store and its first free address; the fields of
  the static \<^verbatim>\<open>array\<close> are zero before \<^verbatim>\<open>array_init\<close> fills them.
\<close>

definition mem_init :: "heap \<Rightarrow> addr \<Rightarrow> state option" where
  "mem_init h0 brk0 =
     array_init \<lparr>heap = h0, array_cells = [], array_data = NULL, array_size = 0,
                 array_capacity = 0, mem_list = NULL, host_brk = brk0, host_regions = []\<rparr>"

subsection \<open>Coalescing and \<^verbatim>\<open>mem_free\<close>\<close>

definition item_get_buddy :: "state \<Rightarrow> addr \<Rightarrow> 32 word \<Rightarrow> (addr \<times> 32 word) option" where
  "item_get_buddy s item i =
     (if item_get_lr_bit (heap s) item = LEFT
      then (let ibuddy = i + 3;
                sz = item_get_size (heap s) item
            in Some (item + sz * BLOCK_SIZE, ibuddy))
      else (let ibuddy = i - 3
            in do {
              c \<leftarrow> data_at (array_cells s) ibuddy;
              let buddy_size = cell_size c;
              Some (item - buddy_size * BLOCK_SIZE, ibuddy)
            }))"

text \<open>The search loop of \<^verbatim>\<open>delete_item\<close>; one unit of fuel per item visited.\<close>

fun delete_find :: "nat \<Rightarrow> heap \<Rightarrow> addr \<Rightarrow> addr \<Rightarrow> addr option" where
  "delete_find 0 h cur item = None"
| "delete_find (Suc k) h cur item =
     (if cur \<noteq> NULL \<and> cur \<noteq> item
      then delete_find k h (item_get_next h cur) item
      else Some cur)"

definition delete_item :: "nat \<Rightarrow> state \<Rightarrow> 32 word \<Rightarrow> addr \<Rightarrow> state option" where
  "delete_item k s i item = do {
     c \<leftarrow> data_at (array_cells s) i;
     cur \<leftarrow> delete_find k (heap s) (cell_items c) item;
     if cur \<noteq> NULL
     then (let prev = item_get_prev (heap s) cur;
               next = item_get_next (heap s) cur;
               h = (if prev \<noteq> NULL then item_set_next (heap s) prev next else heap s);
               h = (if next \<noteq> NULL then item_set_prev h next prev else h);
               d = (if cur = cell_items c
                    then data_set_items (array_cells s) i next
                    else array_cells s)
           in Some (s\<lparr>heap := h, array_cells := d\<rparr>))
     else Some s
   }"

text \<open>The header writes by which \<^verbatim>\<open>coalesce\<close> turns the left buddy into the merged item.\<close>

definition merge_headers :: "heap \<Rightarrow> addr \<Rightarrow> addr \<Rightarrow> 64 word \<Rightarrow> heap" where
  "merge_headers h left right sz =
     (let item = left;
          lr_bit = item_get_inh_bit h left;
          inh_bit = item_get_inh_bit h right;
          h = item_set_lr_bit h item lr_bit;
          h = item_set_inh_bit h item inh_bit;
          h = item_set_size h item sz;
          h = item_set_in_use h item False
      in h)"

text \<open>
  The body of the loop of \<^verbatim>\<open>coalesce\<close>, entered when the buddy is free and whole.  It
  returns the new values of \<open>i\<close>, \<open>item\<close>, \<open>buddy\<close> and \<open>ibuddy\<close>.
\<close>

definition coalesce_step ::
  "nat \<Rightarrow> state \<Rightarrow> 32 word \<Rightarrow> addr \<Rightarrow> addr \<Rightarrow> 32 word
     \<Rightarrow> (32 word \<times> addr \<times> addr \<times> 32 word \<times> state) option" where
  "coalesce_step k s i item buddy ibuddy = do {
     s \<leftarrow> delete_item k s i item;
     s \<leftarrow> delete_item k s ibuddy buddy;
     let (left, right, i) =
           (if item_get_lr_bit (heap s) item = LEFT
            then (item, buddy, i + 4)
            else (buddy, item, i + 1));
     let item = left;
     c \<leftarrow> data_at (array_cells s) i;
     let sz = cell_size c;
     let s = s\<lparr>heap := merge_headers (heap s) left right sz\<rparr>;
     (buddy, ibuddy) \<leftarrow> item_get_buddy s item i;
     s \<leftarrow> insert_item s i item;
     Some (i, item, buddy, ibuddy, s)
   }"

text \<open>
  The loop of \<^verbatim>\<open>coalesce\<close>.  The C function returns nothing; the model also hands back
  the final \<open>i\<close> and \<open>item\<close>, the block that the freed one has become.
\<close>

fun coalesce_loop ::
  "nat \<Rightarrow> state \<Rightarrow> 32 word \<Rightarrow> addr \<Rightarrow> addr \<Rightarrow> 32 word \<Rightarrow> (32 word \<times> addr \<times> state) option" where
  "coalesce_loop 0 s i item buddy ibuddy = None"
| "coalesce_loop (Suc k) s i item buddy ibuddy =
     (if \<not> item_is_in_use (heap s) buddy
      then (case data_at (array_cells s) ibuddy of
              None \<Rightarrow> None
            | Some cb \<Rightarrow>
                if cell_size cb = item_get_size (heap s) buddy
                then (case coalesce_step k s i item buddy ibuddy of
                        None \<Rightarrow> None
                      | Some (i', item', buddy', ibuddy', s') \<Rightarrow>
                          coalesce_loop k s' i' item' buddy' ibuddy')
                else Some (i, item, s))
      else Some (i, item, s))"

definition coalesce :: "nat \<Rightarrow> state \<Rightarrow> 32 word \<Rightarrow> (32 word \<times> addr \<times> state) option" where
  "coalesce k s i = do {
     c \<leftarrow> data_at (array_cells s) i;
     let item = cell_items c;
     (buddy, ibuddy) \<leftarrow> item_get_buddy s item i;
     coalesce_loop k s i item buddy ibuddy
   }"

fun mem_free_search :: "nat \<Rightarrow> cell list \<Rightarrow> 64 word \<Rightarrow> 32 word \<Rightarrow> 32 word option" where
  "mem_free_search 0 d sz i = None"
| "mem_free_search (Suc k) d sz i =
     (case data_at d i of
        None \<Rightarrow> None
      | Some c \<Rightarrow> if sz \<noteq> cell_size c then mem_free_search k d sz (i + 1) else Some i)"

text \<open>
  \<^verbatim>\<open>mem_free\<close>, handing back what \<open>coalesce\<close> hands back: the index and the address
  of the block in which the freed item ended up.
\<close>

definition mem_free_block :: "nat \<Rightarrow> addr \<Rightarrow> state \<Rightarrow> (32 word \<times> addr \<times> state) option" where
  "mem_free_block k area s = do {
     let item = item_from_area area;
     let sz = item_get_size (heap s) item;
     i \<leftarrow> mem_free_search k (array_cells s) sz 0;
     let s = s\<lparr>heap := item_set_in_use (heap s) item False\<rparr>;
     s \<leftarrow> insert_item s i item;
     coalesce k s i
   }"

definition mem_free :: "nat \<Rightarrow> addr \<Rightarrow> state \<Rightarrow> state option" where
  "mem_free k area s = map_option (\<lambda>(i, item, s'). s') (mem_free_block k area s)"

subsection \<open>\<^verbatim>\<open>mem_alloc\<close> and the growth of the array\<close>

function mem_alloc_search :: "state \<Rightarrow> 64 word \<Rightarrow> 32 word \<Rightarrow> 32 word option" where
  "mem_alloc_search s n i =
     (if i < array_size s
      then (case data_at (array_cells s) i of
              None \<Rightarrow> None
            | Some c \<Rightarrow>
                if cell_size c < n \<or> cell_items c = NULL
                then mem_alloc_search s n (i + 1)
                else Some i)
      else Some i)"
  by pat_completeness auto
termination
proof (relation "measure (\<lambda>(s, n, i). unat (array_size s) - unat i)")
  show "wf (measure (\<lambda>(s, n, i). unat (array_size s) - unat i))"
    by simp
next
  fix s :: state and n :: "64 word" and i :: "32 word" and c :: cell
  assume "i < array_size s"
  then have lt: "unat i < unat (array_size s)"
    by (simp add: word_less_nat_alt)
  moreover have "unat (array_size s) < 2 ^ 32"
    using unsigned_less [of "array_size s"] by simp
  ultimately have "unat (i + 1) = unat i + 1"
    by (simp add: unat_word_ariths)
  with lt show "((s, n, i + 1), (s, n, i)) \<in> measure (\<lambda>(s, n, i). unat (array_size s) - unat i)"
    by simp
qed

declare mem_alloc_search.simps [simp del]

definition data_write :: "cell list \<Rightarrow> 32 word \<Rightarrow> cell \<Rightarrow> cell list option" where
  "data_write d i c =
     (if unat i < length d then Some (d[unat i := c])
      else if unat i = length d then Some (d @ [c])
      else None)"

text \<open>
  \<^verbatim>\<open>array_inc_size\<close> calls \<^verbatim>\<open>mem_alloc\<close> and \<^verbatim>\<open>mem_free\<close> to move the array, and
  \<^verbatim>\<open>mem_alloc\<close> calls \<^verbatim>\<open>array_inc_size\<close> in its \<^verbatim>\<open>do ... while\<close> loop (here
  \<open>mem_alloc_grow\<close>).  The three are defined together; the fuel bounds the depth of the
  calls and the number of iterations.  Copying the cells to the new storage leaves the
  list of cells as it is.
\<close>

fun mem_alloc :: "nat \<Rightarrow> 32 word \<Rightarrow> state \<Rightarrow> (addr \<times> state) option"
  and mem_alloc_grow :: "nat \<Rightarrow> state \<Rightarrow> 32 word \<Rightarrow> 64 word \<Rightarrow> (32 word \<times> state) option"
  and array_inc_size :: "nat \<Rightarrow> state \<Rightarrow> state option" where
  "mem_alloc 0 x s = None"
| "mem_alloc (Suc k) x s = do {
     let n = BLOCKS (ucast x + HEADER_SIZE);
     i \<leftarrow> mem_alloc_search s n 0;
     (i, item, s) \<leftarrow>
       (if i = array_size s
        then do {
          (i, s) \<leftarrow> mem_alloc_grow k s (i - 1) n;
          c \<leftarrow> data_at (array_cells s) i;
          (item, s) \<leftarrow> alloc_new_item (ucast (cell_size c)) s;
          Some (i, item, s)
        }
        else do {
          (item, s) \<leftarrow> take_item s i;
          Some (i, item, s)
        });
     (item, s) \<leftarrow> split_item s i item n;
     let s = s\<lparr>heap := item_set_in_use (heap s) item True\<rparr>;
     let area = item_get_area item;
     Some (area, s)
   }"
| "mem_alloc_grow 0 s i n = None"
| "mem_alloc_grow (Suc k) s i n = do {
     s \<leftarrow> array_inc_size k s;
     let i = i + 1;
     c \<leftarrow> data_at (array_cells s) i;
     if cell_size c < n then mem_alloc_grow k s i n else Some (i, s)
   }"
| "array_inc_size 0 s = None"
| "array_inc_size (Suc k) s = do {
     let s = s\<lparr>array_size := array_size s + 1\<rparr>;
     let i = array_size s - 1;
     c1 \<leftarrow> data_at (array_cells s) (i - 1);
     c4 \<leftarrow> data_at (array_cells s) (i - 4);
     d \<leftarrow> data_write (array_cells s) i \<lparr>cell_size = cell_size c1 + cell_size c4, cell_items = NULL\<rparr>;
     let s = s\<lparr>array_cells := d\<rparr>;
     if array_size s = array_capacity s
     then do {
       let s = s\<lparr>array_capacity := array_capacity s * 2\<rparr>;
       let old_data = array_data s;
       (new_data, s) \<leftarrow> mem_alloc k (array_capacity s * 16) s;
       let s = s\<lparr>array_data := new_data\<rparr>;
       mem_free k old_data s
     }
     else Some s
   }"

section \<open>Header words\<close>

text \<open>
  The size field and the three flags of a header word can be written one at a time:
  every setter changes what its getter reads and nothing else.
\<close>

lemma and_4_bit: "((w::64 word) AND 4 \<noteq> 0) = bit w 2"
  using and_exp_eq_0_iff_not_bit [of w 2] by simp

lemma and_2_bit: "((w::64 word) AND 2 \<noteq> 0) = bit w 1"
  using and_exp_eq_0_iff_not_bit [of w 1] by simp

lemma and_1_bit: "((w::64 word) AND 1 \<noteq> 0) = bit w 0"
  using and_exp_eq_0_iff_not_bit [of w 0] by simp

lemma seven_mask: "(7::64 word) = mask 3"
  by (simp add: mask_eq_exp_minus_1)

lemma bit_4_int: "bit (4::int) n = (n = 2)"
  using bit_exp_iff [where 'a=int and m=2 and n=n] by simp

lemma bit_2_int: "bit (2::int) n = (n = 1)"
  using bit_exp_iff [where 'a=int and m=1 and n=n] by simp

lemma size_of_set_size: "drop_bit 3 (((w::64 word) AND 7) OR push_bit 3 n) = take_bit 61 n"
  by (rule bit_word_eqI) (simp add: seven_mask bit_simps)

lemma flags_of_set_size:
  "bit (((w::64 word) AND 7) OR push_bit 3 n) 2 = bit w 2"
  "bit (((w::64 word) AND 7) OR push_bit 3 n) 1 = bit w 1"
  "bit (((w::64 word) AND 7) OR push_bit 3 n) 0 = bit w 0"
  by (simp_all add: seven_mask bit_simps)

lemma bit_set_4:
  "bit (((w::64 word) AND NOT 4) OR (if v then 4 else 0)) k = (if k = 2 then v else bit w k)"
  by (auto simp add: bit_simps bit_4_int dest: bit_imp_le_length)

lemma bit_set_2:
  "bit (((w::64 word) AND NOT 2) OR (if v then 2 else 0)) k = (if k = 1 then v else bit w k)"
  by (auto simp add: bit_simps bit_2_int dest: bit_imp_le_length)

lemma bit_set_1:
  "bit (((w::64 word) AND NOT 1) OR (if v then 1 else 0)) k = (if k = 0 then v else bit w k)"
  by (auto simp add: bit_simps dest: bit_imp_le_length)

lemma size_of_set_flag:
  "drop_bit 3 (((w::64 word) AND NOT 4) OR (if v then 4 else 0)) = drop_bit 3 w"
  "drop_bit 3 (((w::64 word) AND NOT 2) OR (if v then 2 else 0)) = drop_bit 3 w"
  "drop_bit 3 (((w::64 word) AND NOT 1) OR (if v then 1 else 0)) = drop_bit 3 w"
  by (rule bit_word_eqI; simp only: bit_drop_bit_eq comp_def bit_set_4 bit_set_2 bit_set_1; simp)+

lemma header_word_eqI:
  fixes v w :: "64 word"
  assumes "drop_bit 3 v = drop_bit 3 w" and "bit v 2 = bit w 2" and "bit v 1 = bit w 1"
    and "bit v 0 = bit w 0"
  shows "v = w"
proof (rule bit_word_eqI)
  fix n
  show "bit v n = bit w n"
  proof (cases "n < 3")
    case True
    then have "n = 0 \<or> n = 1 \<or> n = 2"
      by arith
    with assms show ?thesis
      by auto
  next
    case False
    then obtain m where "n = 3 + m"
      using le_Suc_ex [of 3 n] by auto
    moreover from assms(1) have "bit (drop_bit 3 v) m = bit (drop_bit 3 w) m"
      by simp
    ultimately show ?thesis
      by (simp add: bit_drop_bit_eq)
  qed
qed

lemmas header_defs =
  item_get_size_def item_set_size_def item_is_in_use_def item_set_in_use_def
  item_get_lr_bit_def item_set_lr_bit_def item_get_inh_bit_def item_set_inh_bit_def

lemmas link_defs =
  item_get_prev_def item_set_prev_def item_get_next_def item_set_next_def

lemmas header_word_simps =
  header_defs Let_def fun_upd_same fun_upd_other size_of_set_size size_of_set_flag
  and_4_bit and_2_bit and_1_bit flags_of_set_size bit_set_4 bit_set_2 bit_set_1
  if_True if_False refl simp_thms

lemma get_size_set [simp]:
  "item_get_size (item_set_size h a n) b = (if b = a then take_bit 61 n else item_get_size h b)"
  "item_get_size (item_set_in_use h a v) b = item_get_size h b"
  "item_get_size (item_set_lr_bit h a v) b = item_get_size h b"
  "item_get_size (item_set_inh_bit h a v) b = item_get_size h b"
  by (cases "b = a"; (simp only: header_word_simps; simp)?; fail)+

lemma is_in_use_set [simp]:
  "item_is_in_use (item_set_size h a n) b = item_is_in_use h b"
  "item_is_in_use (item_set_in_use h a v) b = (if b = a then v else item_is_in_use h b)"
  "item_is_in_use (item_set_lr_bit h a v) b = item_is_in_use h b"
  "item_is_in_use (item_set_inh_bit h a v) b = item_is_in_use h b"
  by (cases "b = a"; (simp only: header_word_simps; simp)?; fail)+

lemma get_lr_bit_set [simp]:
  "item_get_lr_bit (item_set_size h a n) b = item_get_lr_bit h b"
  "item_get_lr_bit (item_set_in_use h a v) b = item_get_lr_bit h b"
  "item_get_lr_bit (item_set_lr_bit h a v) b = (if b = a then v else item_get_lr_bit h b)"
  "item_get_lr_bit (item_set_inh_bit h a v) b = item_get_lr_bit h b"
  by (cases "b = a"; (simp only: header_word_simps; simp)?; fail)+

lemma get_inh_bit_set [simp]:
  "item_get_inh_bit (item_set_size h a n) b = item_get_inh_bit h b"
  "item_get_inh_bit (item_set_in_use h a v) b = item_get_inh_bit h b"
  "item_get_inh_bit (item_set_lr_bit h a v) b = item_get_inh_bit h b"
  "item_get_inh_bit (item_set_inh_bit h a v) b = (if b = a then v else item_get_inh_bit h b)"
  by (cases "b = a"; (simp only: header_word_simps; simp)?; fail)+

lemma header_eqI:
  assumes "item_get_size h a = item_get_size h' a'"
    and "item_is_in_use h a = item_is_in_use h' a'"
    and "item_get_lr_bit h a = item_get_lr_bit h' a'"
    and "item_get_inh_bit h a = item_get_inh_bit h' a'"
  shows "h a = h' a'"
  using assms by - (rule header_word_eqI; simp only: header_defs and_4_bit and_2_bit and_1_bit)

lemma take_bit_get_size [simp]: "take_bit 61 (item_get_size h a) = item_get_size h a"
proof (rule bit_word_eqI)
  fix n
  have "bit (h a) (3 + n) \<Longrightarrow> n < 61"
    using bit_imp_le_length [of "h a" "3 + n"] by simp
  then show "bit (take_bit 61 (item_get_size h a)) n = bit (item_get_size h a) n"
    by (auto simp add: item_get_size_def bit_simps)
qed

section \<open>Running the allocator\<close>

text \<open>
  Concrete runs are evaluated by rewriting with the defining equations, the arguments of
  a bind or a let first.  A loop with fuel is unfolded at a numeral by the equations below.
\<close>

lemma bind_weak_cong: "m = m' \<Longrightarrow> Option.bind m f = Option.bind m' f"
  by simp

lemmas fuel_numeral =
  mem_alloc.simps(2) [of "pred_numeral v" for v, folded numeral_eq_Suc]
  mem_alloc_grow.simps(2) [of "pred_numeral v" for v, folded numeral_eq_Suc]
  array_inc_size.simps(2) [of "pred_numeral v" for v, folded numeral_eq_Suc]
  delete_find.simps(2) [of "pred_numeral v" for v, folded numeral_eq_Suc]
  coalesce_loop.simps(2) [of "pred_numeral v" for v, folded numeral_eq_Suc]
  mem_free_search.simps(2) [of "pred_numeral v" for v, folded numeral_eq_Suc]

lemmas run_defs =
  header_defs link_defs item_get_area_def item_from_area_def
  malloc_def alloc_new_item_def array_init_def mem_init_def
  array_init_loop.simps data_at_def data_set_items_def data_write_def take_item_def
  insert_item_def split_headers_def split_step_def split_item.simps item_get_buddy_def
  delete_item_def merge_headers_def coalesce_step_def coalesce_def mem_free_block_def
  mem_free_def mem_alloc_search.simps BLOCKS_def fuel_numeral Let_def

text \<open>
  A host whose store is all zero and whose first free address is 4096, and the state
  \<^verbatim>\<open>mem_init\<close> leaves on it.
\<close>

definition fresh_state :: "state option" where
  "fresh_state = mem_init (\<lambda>_. 0) 4096"

definition state_of :: "(addr \<times> state) option \<Rightarrow> state option" where
  "state_of r = map_option snd r"

text \<open>The header size of the block whose area a call of \<^verbatim>\<open>mem_alloc\<close> returned.\<close>

definition block_size_of :: "(addr \<times> state) option \<Rightarrow> 64 word option" where
  "block_size_of r = map_option (\<lambda>(area, s). item_get_size (heap s) (item_from_area area)) r"

definition ladder :: "state \<Rightarrow> 64 word list" where
  "ladder s = map cell_size (array_cells s)"


lemma fresh_state_eq:
  "fresh_state = Some
     \<lparr>heap = (\<lambda>_. 0)(4096 := 0, 4656 := 6, 4104 := 556),
      array_cells =
        [\<lparr>cell_size = 3, cell_items = 0\<rparr>, \<lparr>cell_size = 4, cell_items = 0\<rparr>,
         \<lparr>cell_size = 5, cell_items = 0\<rparr>, \<lparr>cell_size = 7, cell_items = 0\<rparr>,
         \<lparr>cell_size = 10, cell_items = 0\<rparr>, \<lparr>cell_size = 14, cell_items = 0\<rparr>,
         \<lparr>cell_size = 19, cell_items = 0\<rparr>, \<lparr>cell_size = 26, cell_items = 0\<rparr>,
         \<lparr>cell_size = 36, cell_items = 0\<rparr>, \<lparr>cell_size = 50, cell_items = 0\<rparr>,
         \<lparr>cell_size = 69, cell_items = 0\<rparr>],
      array_data = 4112, array_size = 11, array_capacity = 16, mem_list = 4096,
      host_brk = 4664, host_regions = [(4096, 568)]\<rparr>"
  unfolding fresh_state_def
  by (simp add: run_defs split del: if_split cong: bind_weak_cong let_weak_cong)

lemma fresh_alloc_1:
  "Option.bind fresh_state (mem_alloc 3 1) = Some (4680,
     \<lparr>heap = (\<lambda>_. 0)(4096 := 0, 4656 := 6, 4104 := 556, 4664 := 4096, 5432 := 6,
               4880 := 554, 4896 := 0, 4888 := 0, 4728 := 154, 4744 := 0,
               4736 := 0, 4672 := 60),
      array_cells =
        [\<lparr>cell_size = 3, cell_items = 0\<rparr>, \<lparr>cell_size = 4, cell_items = 0\<rparr>,
         \<lparr>cell_size = 5, cell_items = 0\<rparr>, \<lparr>cell_size = 7, cell_items = 0\<rparr>,
         \<lparr>cell_size = 10, cell_items = 0\<rparr>, \<lparr>cell_size = 14, cell_items = 0\<rparr>,
         \<lparr>cell_size = 19, cell_items = 4728\<rparr>, \<lparr>cell_size = 26, cell_items = 0\<rparr>,
         \<lparr>cell_size = 36, cell_items = 0\<rparr>, \<lparr>cell_size = 50, cell_items = 0\<rparr>,
         \<lparr>cell_size = 69, cell_items = 4880\<rparr>, \<lparr>cell_size = 95, cell_items = 0\<rparr>],
      array_data = 4112, array_size = 12, array_capacity = 16, mem_list = 4664,
      host_brk = 5440, host_regions = [(4664, 776), (4096, 568)]\<rparr>)"
  unfolding fresh_state_eq
  by (simp add: run_defs split del: if_split cong: bind_weak_cong let_weak_cong)

lemma fresh_alloc_1_10:
  "block_size_of (Option.bind (state_of (Option.bind fresh_state (mem_alloc 3 1))) (mem_alloc 3 10))
     = Some 5"
  unfolding fresh_alloc_1 state_of_def block_size_of_def
  by (simp add: run_defs split del: if_split cong: bind_weak_cong let_weak_cong)

section \<open>The smallest requests (claim C2)\<close>

text \<open>
  Claim C2, as stated, fails: in the freshly initialised state \<^verbatim>\<open>mem_alloc(1)\<close> does not
  return a block of \<open>MIN_SIZE\<close> blocks.  It draws a chunk of 95 blocks and splits it at
  the indices 11 and 7; the left child at index 3 (7 blocks) cannot be split any further,
  because \<^verbatim>\<open>split_item\<close> stops when \<open>i \<le> 4\<close>.
\<close>

theorem alloc_1_not_min_size:
  "block_size_of (Option.bind fresh_state (mem_alloc 3 1)) \<noteq> Some MIN_SIZE"
  unfolding fresh_alloc_1 block_size_of_def
  by (simp add: item_get_size_def item_from_area_def)

text \<open>
  Claim C2, amended: in the freshly initialised state \<^verbatim>\<open>mem_alloc(1)\<close> returns a block
  whose header size is 7 (\<open>SIZE_3\<close>, the cell of index 3), and the \<^verbatim>\<open>mem_alloc(10)\<close>
  that follows returns a block whose header size is 5 (\<open>SIZE_2\<close>, the cell of index 2).
\<close>

theorem alloc_1_and_10_sizes:
  "block_size_of (Option.bind fresh_state (mem_alloc 3 1)) = Some SIZE_3 \<and>
   block_size_of (Option.bind (state_of (Option.bind fresh_state (mem_alloc 3 1))) (mem_alloc 3 10))
     = Some SIZE_2"
proof
  show "block_size_of (Option.bind fresh_state (mem_alloc 3 1)) = Some SIZE_3"
    unfolding fresh_alloc_1 block_size_of_def
    by (simp add: item_get_size_def item_from_area_def)
  show "block_size_of (Option.bind (state_of (Option.bind fresh_state (mem_alloc 3 1)))
          (mem_alloc 3 10)) = Some SIZE_2"
    by (rule fresh_alloc_1_10)
qed

section \<open>The header writes of a split and of a merge\<close>

lemma split_headers_left:
  assumes "szl * BLOCK_SIZE \<noteq> 0"
  shows "item_get_size (split_headers h cur szl szr) cur = take_bit 61 szl"
    and "item_get_lr_bit (split_headers h cur szl szr) cur = LEFT"
    and "item_is_in_use (split_headers h cur szl szr) cur = False"
    and "item_get_inh_bit (split_headers h cur szl szr) cur = item_get_lr_bit h cur"
  using assms by (simp_all add: split_headers_def Let_def)

lemma split_headers_right:
  assumes "szl * BLOCK_SIZE \<noteq> 0"
  shows "item_get_size (split_headers h cur szl szr) (cur + szl * BLOCK_SIZE) = take_bit 61 szr"
    and "item_get_lr_bit (split_headers h cur szl szr) (cur + szl * BLOCK_SIZE) = RIGHT"
    and "item_is_in_use (split_headers h cur szl szr) (cur + szl * BLOCK_SIZE) = False"
    and "item_get_inh_bit (split_headers h cur szl szr) (cur + szl * BLOCK_SIZE)
           = item_get_inh_bit h cur"
  using assms by (simp_all add: split_headers_def Let_def)

text \<open>
  A parent as it occurs in the run \<^verbatim>\<open>mem_alloc(1); mem_alloc(10)\<close> from the fresh state: the
  block of 19 blocks at address 4728, a right child (\<open>lr = RIGHT\<close>) with \<open>inh = LEFT\<close>,
  which \<^verbatim>\<open>mem_alloc(10)\<close> splits into 5 and 14 blocks.
\<close>

definition example_parent :: heap where
  "example_parent = (\<lambda>a. if a = 4728 then 154 else 0)"

text \<open>
  Claim C8, as stated, fails at this parent: the left child's \<open>lr\<close> is not the parent's
  \<open>lr\<close>, the right child's \<open>inh\<close> is not the parent's \<open>lr\<close>, and the left child's
  \<open>inh\<close> is not the parent's \<open>inh\<close>.
\<close>

theorem split_bits_not_as_claimed:
  "item_get_lr_bit (split_headers example_parent 4728 5 14) 4728
     \<noteq> item_get_lr_bit example_parent 4728 \<and>
   item_get_inh_bit (split_headers example_parent 4728 5 14) (4728 + 5 * BLOCK_SIZE)
     \<noteq> item_get_lr_bit example_parent 4728 \<and>
   item_get_inh_bit (split_headers example_parent 4728 5 14) 4728
     \<noteq> item_get_inh_bit example_parent 4728"
  by (simp add: split_headers_def header_defs Let_def example_parent_def)

lemma merge_headers_at_left:
  "item_get_size (merge_headers h left right sz) left = take_bit 61 sz"
  "item_is_in_use (merge_headers h left right sz) left = False"
  "item_get_lr_bit (merge_headers h left right sz) left = item_get_inh_bit h left"
  "item_get_inh_bit (merge_headers h left right sz) left = item_get_inh_bit h right"
  by (simp_all add: merge_headers_def Let_def)

section \<open>Fresh chunks (claims C7, C9 and C1)\<close>

text \<open>The header of an item as the specification writes it: size, \<open>lr\<close>, \<open>in_use\<close>, \<open>inh\<close>.\<close>

definition item_header :: "heap \<Rightarrow> addr \<Rightarrow> 64 word \<times> bool \<times> bool \<times> bool" where
  "item_header h item =
     (item_get_size h item, item_get_lr_bit h item, item_is_in_use h item, item_get_inh_bit h item)"

text \<open>A host whose store holds \<^verbatim>\<open>0xFF\<close> in every byte.\<close>

definition garbage_host :: state where
  "garbage_host =
     \<lparr>heap = (\<lambda>_. - 1), array_cells = [], array_data = NULL, array_size = 0,
      array_capacity = 0, mem_list = NULL, host_brk = 4096, host_regions = []\<rparr>"

text \<open>
  Claim C7 at a failing input: \<^verbatim>\<open>alloc_new_item(95)\<close> on memory that \<^verbatim>\<open>malloc\<close> hands out
  with all bits set.  The first word of the chunk is the previous head of the chunk list
  (\<open>NULL\<close>), the block has size 95 and \<open>lr = LEFT\<close>, the sentinel has size 0,
  \<open>lr = RIGHT\<close> and \<open>in_use = 1\<close>; but the block's \<open>in_use\<close> and \<open>inh\<close> and the
  sentinel's \<open>inh\<close> are what the memory held, here 1, not the 0 (\<open>LEFT\<close>) of the claim.
\<close>

theorem alloc_new_item_keeps_garbage:
  "map_option
     (\<lambda>(item, s). (heap s (item - POINTER_SIZE), item_header (heap s) item,
                    item_header (heap s) (item + 95 * BLOCK_SIZE)))
     (alloc_new_item 95 garbage_host)
   = Some (NULL, (95, LEFT, True, RIGHT), (0, RIGHT, True, RIGHT))"
  by (simp add: run_defs item_header_def garbage_host_def
      split del: if_split cong: bind_weak_cong let_weak_cong)



text \<open>
  The bytes of host memory from an address to the end of the region of the host that
  holds it.
\<close>

definition usable_bytes :: "state \<Rightarrow> addr \<Rightarrow> nat" where
  "usable_bytes s p =
     (case find (\<lambda>(b, len). unat b \<le> unat p \<and> unat p < unat b + unat len) (host_regions s) of
        None \<Rightarrow> 0
      | Some (b, len) \<Rightarrow> unat b + unat len - unat p)"

text \<open>
  Claim C1 at a failing input: \<^verbatim>\<open>mem_alloc(4000000000)\<close> in the fresh state.  The request
  needs 500000001 blocks; the ladder is extended up to the term 685792227, and the header
  of the block returned holds that size.  But \<^verbatim>\<open>alloc_new_item\<close> computes the byte
  count \<^verbatim>\<open>BLOCK_SIZE * n\<close> in 32 bits, where it wraps around: the region the host hands
  out ends 1191370520 bytes after the address returned, far less than the 4000000000
  bytes asked for.
\<close>

theorem alloc_4G_region_too_small:
  "map_option
     (\<lambda>(area, s). (item_get_size (heap s) (item_from_area area), usable_bytes s area))
     (Option.bind fresh_state (mem_alloc 100 4000000000))
   = Some (685792227, 1191370520)"
  unfolding fresh_state_eq
  by (simp add: run_defs usable_bytes_def split del: if_split cong: bind_weak_cong let_weak_cong)

section \<open>What the operations do to the array of cells\<close>

text \<open>
  Only the growth of the array changes the ladder, the size and capacity of the array, the
  list of chunks and the host; every other operation works on the store and on the heads
  of the free lists.
\<close>

definition same_array :: "state \<Rightarrow> state \<Rightarrow> bool" where
  "same_array s s' \<longleftrightarrow>
     ladder s' = ladder s \<and> array_size s' = array_size s \<and> array_capacity s' = array_capacity s \<and>
     array_data s' = array_data s \<and> mem_list s' = mem_list s \<and> host_brk s' = host_brk s \<and>
     host_regions s' = host_regions s"

lemma same_array_refl [simp]: "same_array s s"
  by (simp add: same_array_def)

lemma same_array_trans: "same_array s s' \<Longrightarrow> same_array s' s'' \<Longrightarrow> same_array s s''"
  by (simp add: same_array_def)

lemma same_array_heap [simp]: "same_array s (s'\<lparr>heap := h\<rparr>) = same_array s s'"
  by (simp add: same_array_def ladder_def)

lemma ladder_set_items [simp]: "map cell_size (data_set_items d i p) = map cell_size d"
  by (simp add: data_set_items_def map_update) (metis list_update_id map_update)

lemma length_set_items [simp]: "length (data_set_items d i p) = length d"
  by (simp add: data_set_items_def)

lemma insert_item_same: "insert_item s i item = Some s' \<Longrightarrow> same_array s s'"
  by (auto simp: insert_item_def same_array_def ladder_def Let_def split: bind_splits)

lemma take_item_same: "take_item s i = Some (item, s') \<Longrightarrow> same_array s s'"
  by (auto simp: take_item_def same_array_def ladder_def Let_def split: bind_splits)

lemma delete_item_same: "delete_item k s i item = Some s' \<Longrightarrow> same_array s s'"
  by (auto simp: delete_item_def same_array_def ladder_def Let_def split: bind_splits if_splits)

lemma split_step_same: "split_step s i cur n = Some (i', cur', s') \<Longrightarrow> same_array s s'"
  by (auto simp: split_step_def Let_def split: bind_splits if_splits dest!: insert_item_same)
     (auto simp: same_array_def ladder_def)



lemma split_item_stop:
  "data_at (array_cells s) (i - 1) = Some c1 \<Longrightarrow> \<not> (n \<le> cell_size c1 \<and> 4 < i)
   \<Longrightarrow> split_item s i item n = Some (item, s)"
  by (subst split_item.simps) auto

lemma split_item_step:
  "data_at (array_cells s) (i - 1) = Some c1 \<Longrightarrow> n \<le> cell_size c1 \<Longrightarrow> 4 < i
   \<Longrightarrow> split_step s i item n = Some (i', cur, s1)
   \<Longrightarrow> split_item s i item n = split_item s1 i' cur n"
  by (subst split_item.simps) simp

lemma split_step_index:
  "split_step s i cur n = Some (i', cur', s') \<Longrightarrow> i' = i - 4 \<or> i' = i - 1"
  by (auto simp: split_step_def Let_def split: bind_splits if_splits)

lemma unat_minus_less: "4 < (i::32 word) \<Longrightarrow> unat (i - 4) < unat i \<and> unat (i - 1) < unat i"
  by (simp add: unat_sub word_le_nat_alt word_less_nat_alt less_imp_le)

lemma split_item_induct [consumes 1, case_names stop step]:
  assumes run: "split_item s i item n = Some (item', s')"
    and stop: "\<And>s i item c1. data_at (array_cells s) (i - 1) = Some c1
                 \<Longrightarrow> \<not> (n \<le> cell_size c1 \<and> 4 < i) \<Longrightarrow> P s i item item s"
    and step: "\<And>s i item c1 i' cur s1 item' s'.
                 data_at (array_cells s) (i - 1) = Some c1 \<Longrightarrow> n \<le> cell_size c1 \<Longrightarrow> 4 < i
                 \<Longrightarrow> split_step s i item n = Some (i', cur, s1)
                 \<Longrightarrow> split_item s1 i' cur n = Some (item', s')
                 \<Longrightarrow> P s1 i' cur item' s' \<Longrightarrow> P s i item item' s'"
  shows "P s i item item' s'"
  using run
proof (induction "unat i" arbitrary: s i item rule: less_induct)
  case less
  from less.prems obtain c1 where c1: "data_at (array_cells s) (i - 1) = Some c1"
    by (subst (asm) split_item.simps) (auto split: option.splits)
  show ?case
  proof (cases "n \<le> cell_size c1 \<and> 4 < i")
    case False
    with c1 less.prems show ?thesis
      using stop [OF c1 False, of item] by (simp add: split_item_stop)
  next
    case True
    with c1 less.prems obtain i' cur s1 where st: "split_step s i item n = Some (i', cur, s1)"
      by (subst (asm) split_item.simps) (auto split: option.splits)
    with c1 True less.prems have rest: "split_item s1 i' cur n = Some (item', s')"
      by (simp add: split_item_step)
    have "unat i' < unat i"
      using split_step_index [OF st] unat_minus_less [of i] True by auto
    then have "P s1 i' cur item' s'"
      using less.hyps rest by blast
    with c1 True st rest show ?thesis
      by (auto intro: step)
  qed
qed

lemma split_item_same: "split_item s i item n = Some (item', s') \<Longrightarrow> same_array s s'"
  by (induction rule: split_item_induct) (auto dest: split_step_same same_array_trans)


lemma mem_alloc_Suc_cases [consumes 1, case_names grow take]:
  assumes "mem_alloc (Suc k) x s = Some (area, s')"
  obtains
    (grow) i1 s1 c item s2 item3 s3 where
      "mem_alloc_search s (BLOCKS (ucast x + HEADER_SIZE)) 0 = Some (array_size s)"
      "mem_alloc_grow k s (array_size s - 1) (BLOCKS (ucast x + HEADER_SIZE)) = Some (i1, s1)"
      "data_at (array_cells s1) i1 = Some c"
      "alloc_new_item (ucast (cell_size c)) s1 = Some (item, s2)"
      "split_item s2 i1 item (BLOCKS (ucast x + HEADER_SIZE)) = Some (item3, s3)"
      "s' = s3\<lparr>heap := item_set_in_use (heap s3) item3 True\<rparr>"
      "area = item_get_area item3"
  | (take) i item s2 item3 s3 where
      "mem_alloc_search s (BLOCKS (ucast x + HEADER_SIZE)) 0 = Some i"
      "i \<noteq> array_size s"
      "take_item s i = Some (item, s2)"
      "split_item s2 i item (BLOCKS (ucast x + HEADER_SIZE)) = Some (item3, s3)"
      "s' = s3\<lparr>heap := item_set_in_use (heap s3) item3 True\<rparr>"
      "area = item_get_area item3"
proof -
  let ?n = "BLOCKS (ucast x + HEADER_SIZE)"
  from assms obtain i where i: "mem_alloc_search s ?n 0 = Some i"
    by (auto simp: Let_def split: bind_splits)
  show thesis
  proof (cases "i = array_size s")
    case True
    with assms i show thesis
      by (auto simp: Let_def split: bind_splits intro: grow)
  next
    case False
    with assms i show thesis
      by (auto simp: Let_def split: bind_splits intro: take)
  qed
qed

lemma mem_alloc_grow_Suc_cases [consumes 1, case_names again last]:
  assumes "mem_alloc_grow (Suc k) s i n = Some (i', s')"
  obtains
    (again) s1 c where
      "array_inc_size k s = Some s1" "data_at (array_cells s1) (i + 1) = Some c"
      "cell_size c < n" "mem_alloc_grow k s1 (i + 1) n = Some (i', s')"
  | (last) c where
      "array_inc_size k s = Some s'" "data_at (array_cells s') (i + 1) = Some c"
      "\<not> cell_size c < n" "i' = i + 1"
proof -
  from assms obtain s1 c where a: "array_inc_size k s = Some s1"
    and c: "data_at (array_cells s1) (i + 1) = Some c"
    and r: "(if cell_size c < n then mem_alloc_grow k s1 (i + 1) n else Some (i + 1, s1)) = Some (i', s')"
    by (simp only: mem_alloc_grow.simps Let_def bind_eq_Some_conv) blast
  show thesis
  proof (cases "cell_size c < n")
    case True
    with a c r show thesis by (simp add: again)
  next
    case False
    with a c r show thesis by (auto intro: last)
  qed
qed

lemma array_inc_size_Suc_cases [consumes 1, case_names plain move]:
  assumes "array_inc_size (Suc k) s = Some s'"
  obtains
    (plain) c1 c4 d where
      "data_at (array_cells s) (array_size s - 1) = Some c1"
      "data_at (array_cells s) (array_size s - 4) = Some c4"
      "data_write (array_cells s) (array_size s)
         \<lparr>cell_size = cell_size c1 + cell_size c4, cell_items = NULL\<rparr> = Some d"
      "array_size s + 1 \<noteq> array_capacity s"
      "s' = s\<lparr>array_size := array_size s + 1, array_cells := d\<rparr>"
  | (move) c1 c4 d new_data s3 where
      "data_at (array_cells s) (array_size s - 1) = Some c1"
      "data_at (array_cells s) (array_size s - 4) = Some c4"
      "data_write (array_cells s) (array_size s)
         \<lparr>cell_size = cell_size c1 + cell_size c4, cell_items = NULL\<rparr> = Some d"
      "array_size s + 1 = array_capacity s"
      "mem_alloc k (array_capacity s * 2 * 16)
         (s\<lparr>array_size := array_size s + 1, array_cells := d,
            array_capacity := array_capacity s * 2\<rparr>) = Some (new_data, s3)"
      "mem_free k (array_data s) (s3\<lparr>array_data := new_data\<rparr>) = Some s'"
proof -
  from assms obtain c1 c4 d where c1: "data_at (array_cells s) (array_size s - 1) = Some c1"
    and c4: "data_at (array_cells s) (array_size s - 4) = Some c4"
    and d: "data_write (array_cells s) (array_size s)
         \<lparr>cell_size = cell_size c1 + cell_size c4, cell_items = NULL\<rparr> = Some d"
    and rest: "(if array_size s + 1 = array_capacity s
         then Option.bind (mem_alloc k (array_capacity s * 2 * 16)
                 (s\<lparr>array_size := array_size s + 1, array_cells := d,
                     array_capacity := array_capacity s * 2\<rparr>))
               (\<lambda>(new_data, s3). mem_free k (array_data s) (s3\<lparr>array_data := new_data\<rparr>))
         else Some (s\<lparr>array_size := array_size s + 1, array_cells := d\<rparr>)) = Some s'"
    by (auto simp: Let_def split: bind_splits cong: if_cong)
  show thesis
  proof (cases "array_size s + 1 = array_capacity s")
    case False
    from rest have "s' = s\<lparr>array_size := array_size s + 1, array_cells := d\<rparr>"
      unfolding if_not_P [OF False] by simp
    with c1 c4 d False show thesis by (rule plain)
  next
    case True
    from rest have "Option.bind (mem_alloc k (array_capacity s * 2 * 16)
                 (s\<lparr>array_size := array_size s + 1, array_cells := d,
                     array_capacity := array_capacity s * 2\<rparr>))
               (\<lambda>(new_data, s3). mem_free k (array_data s) (s3\<lparr>array_data := new_data\<rparr>)) = Some s'"
      unfolding if_P [OF True] .
    then obtain new_data s3 where
      "mem_alloc k (array_capacity s * 2 * 16)
         (s\<lparr>array_size := array_size s + 1, array_cells := d,
            array_capacity := array_capacity s * 2\<rparr>) = Some (new_data, s3)"
      "mem_free k (array_data s) (s3\<lparr>array_data := new_data\<rparr>) = Some s'"
      by (auto simp only: bind_eq_Some_conv split: prod.splits)
    with c1 c4 d True show thesis by (rule move)
  qed
qed


lemma coalesce_loop_Suc_cases [consumes 1, case_names merge stop]:
  assumes "coalesce_loop (Suc k) s i item buddy ibuddy = Some (i', item', s')"
  obtains
    (merge) cb i1 item1 buddy1 ibuddy1 s1 where
      "\<not> item_is_in_use (heap s) buddy" "data_at (array_cells s) ibuddy = Some cb"
      "cell_size cb = item_get_size (heap s) buddy"
      "coalesce_step k s i item buddy ibuddy = Some (i1, item1, buddy1, ibuddy1, s1)"
      "coalesce_loop k s1 i1 item1 buddy1 ibuddy1 = Some (i', item', s')"
  | (stop)
      "item_is_in_use (heap s) buddy \<or>
       (\<exists>cb. data_at (array_cells s) ibuddy = Some cb \<and> cell_size cb \<noteq> item_get_size (heap s) buddy)"
      "i' = i" "item' = item" "s' = s"
  using assms by (auto split: if_splits option.splits)

lemma coalesce_step_same:
  "coalesce_step k s i item buddy ibuddy = Some (i', item', buddy', ibuddy', s') \<Longrightarrow> same_array s s'"
  by (auto simp: coalesce_step_def Let_def split: bind_splits if_splits prod.splits
      dest!: insert_item_same delete_item_same)
     (auto simp: same_array_def ladder_def)

lemma coalesce_loop_same:
  "coalesce_loop k s i item buddy ibuddy = Some (i', item', s') \<Longrightarrow> same_array s s'"
proof (induction k arbitrary: s i item buddy ibuddy)
  case 0
  then show ?case by simp
next
  case (Suc k)
  from Suc.prems show ?case
  proof (cases rule: coalesce_loop_Suc_cases)
    case (merge cb i1 item1 buddy1 ibuddy1 s1)
    then show ?thesis
      using Suc.IH coalesce_step_same same_array_trans by blast
  next
    case stop
    then show ?thesis by simp
  qed
qed

lemma coalesce_same: "coalesce k s i = Some (i', item', s') \<Longrightarrow> same_array s s'"
  by (auto simp: coalesce_def Let_def split: bind_splits dest: coalesce_loop_same)

lemma mem_free_block_same: "mem_free_block k area s = Some (i', item', s') \<Longrightarrow> same_array s s'"
  by (auto simp: mem_free_block_def Let_def split: bind_splits
      dest!: coalesce_same insert_item_same)
     (auto simp: same_array_def ladder_def)

lemma mem_free_same: "mem_free k area s = Some s' \<Longrightarrow> same_array s s'"
  by (auto simp: mem_free_def dest: mem_free_block_same)

lemma alloc_new_item_cells:
  "alloc_new_item n s = Some (item, s') \<Longrightarrow>
     array_cells s' = array_cells s \<and> array_size s' = array_size s \<and>
     array_capacity s' = array_capacity s \<and> array_data s' = array_data s"
  by (auto simp: alloc_new_item_def malloc_def Let_def split: bind_splits if_splits)

text \<open>properties of the ladder that every run of the three functions keeps\<close>

lemma alloc_ladder_induct:
  assumes refl: "\<And>s. Q s s"
    and trans: "\<And>s s1 s2. Q s s1 \<Longrightarrow> Q s1 s2 \<Longrightarrow> Q s s2"
    and same: "\<And>s s'. ladder s' = ladder s \<Longrightarrow> array_size s' = array_size s \<Longrightarrow> Q s s'"
    and app: "\<And>s c1 c4 d.
        data_at (array_cells s) (array_size s - 1) = Some c1 \<Longrightarrow>
        data_at (array_cells s) (array_size s - 4) = Some c4 \<Longrightarrow>
        data_write (array_cells s) (array_size s)
          \<lparr>cell_size = cell_size c1 + cell_size c4, cell_items = NULL\<rparr> = Some d \<Longrightarrow>
        Q s (s\<lparr>array_size := array_size s + 1, array_cells := d\<rparr>)"
  shows "(\<forall>x s p s'. mem_alloc k x s = Some (p, s') \<longrightarrow> Q s s') \<and>
         (\<forall>s i n i' s'. mem_alloc_grow k s i n = Some (i', s') \<longrightarrow> Q s s') \<and>
         (\<forall>s s'. array_inc_size k s = Some s' \<longrightarrow> Q s s')"
proof (induction k)
  case 0
  then show ?case by simp
next
  case (Suc k)
  have alloc: "Q s s'" if "mem_alloc (Suc k) x s = Some (p, s')" for x s p s'
    using that
  proof (cases rule: mem_alloc_Suc_cases)
    case (grow i1 s1 c item s2 item3 s3)
    from grow(2) Suc have "Q s s1" by blast
    moreover from grow(4) have "Q s1 s2"
      by (intro same) (auto simp: ladder_def dest: alloc_new_item_cells)
    moreover from grow(5) have "Q s2 s3"
      by (intro same) (auto dest!: split_item_same simp: same_array_def)
    moreover from grow(6) have "Q s3 s'"
      by (intro same) (auto simp: ladder_def)
    ultimately show ?thesis
      by (blast intro: trans)
  next
    case (take i item s2 item3 s3)
    from take(3) have "Q s s2"
      by (intro same) (auto dest!: take_item_same simp: same_array_def)
    moreover from take(4) have "Q s2 s3"
      by (intro same) (auto dest!: split_item_same simp: same_array_def)
    moreover from take(5) have "Q s3 s'"
      by (intro same) (auto simp: ladder_def)
    ultimately show ?thesis
      by (blast intro: trans)
  qed
  have grow: "Q s s'" if "mem_alloc_grow (Suc k) s i n = Some (i', s')" for s i n i' s'
    using that
  proof (cases rule: mem_alloc_grow_Suc_cases)
    case (again s1 c)
    with Suc show ?thesis
      by (blast intro: trans)
  next
    case (last c)
    with Suc show ?thesis
      by blast
  qed
  have inc: "Q s s'" if "array_inc_size (Suc k) s = Some s'" for s s'
    using that
  proof (cases rule: array_inc_size_Suc_cases)
    case (plain c1 c4 d)
    then show ?thesis
      using app by blast
  next
    case (move c1 c4 d new_data s3)
    let ?s1 = "s\<lparr>array_size := array_size s + 1, array_cells := d\<rparr>"
    let ?s2 = "s\<lparr>array_size := array_size s + 1, array_cells := d,
                  array_capacity := array_capacity s * 2\<rparr>"
    have "Q s ?s1"
      using move(1,2,3) by (rule app)
    moreover have "Q ?s1 ?s2"
      by (intro same) (auto simp: ladder_def)
    moreover from move(5) Suc have "Q ?s2 s3" by blast
    moreover have "Q s3 (s3\<lparr>array_data := new_data\<rparr>)"
      by (intro same) (auto simp: ladder_def)
    moreover from move(6) have "Q (s3\<lparr>array_data := new_data\<rparr>) s'"
      by (intro same) (auto dest!: mem_free_same simp: same_array_def)
    ultimately show ?thesis
      by (blast intro: trans)
  qed
  from alloc grow inc show ?case by blast
qed

section \<open>One split and one merge (claims C8 and C5)\<close>

text \<open>
  One iteration of \<^verbatim>\<open>split_item\<close> writes the headers of the two children and then calls
  \<^verbatim>\<open>insert_item\<close>, which writes link words; one iteration of \<^verbatim>\<open>coalesce\<close> calls
  \<^verbatim>\<open>delete_item\<close> twice, writes the merged header and calls \<^verbatim>\<open>insert_item\<close>.  What these
  writes leave of the headers depends on where the heads of the free lists lie: a head whose
  words overlap the block that is split is overwritten, or has its \<^verbatim>\<open>prev\<close> link written
  into a header.  The theorems below therefore ask that the heads of the free lists
  concerned are clear of the block.
\<close>

text \<open>
  The header and the two link words of the block at \<open>q\<close> lie outside the \<open>sz\<close> blocks at
  \<open>item\<close>, or \<open>q\<close> is \<^verbatim>\<open>NULL\<close>.
\<close>

definition clear_of :: "addr \<Rightarrow> addr \<Rightarrow> 64 word \<Rightarrow> bool" where
  "clear_of q item sz \<longleftrightarrow>
     q = NULL \<or> unat q + 24 \<le> unat item \<or>
     (unat item + 8 * unat sz \<le> unat q \<and> unat q + 24 \<le> 2 ^ 64)"

lemma neq_by_unat: "unat x \<noteq> unat y \<Longrightarrow> x \<noteq> y"
  by auto

lemma unat_plus_small:
  fixes a :: "64 word"
  shows "unat a + n < 2 ^ 64 \<Longrightarrow> unat (a + of_nat n) = unat a + n"
  by (simp add: unat_word_ariths unat_of_nat take_bit_nat_eq_self)

lemma unat_times_8:
  fixes a :: "64 word"
  shows "8 * unat a < 2 ^ 64 \<Longrightarrow> unat (a * 8) = 8 * unat a"
  by (simp add: unat_word_ariths)

text \<open>the six words of two adjacent children are distinct\<close>

lemma children_words:
  fixes cur :: addr and szl :: "64 word"
  assumes "3 \<le> unat szl" and "unat cur + 8 * unat szl + 24 \<le> 2 ^ 64"
  shows "unat (cur + 8) = unat cur + 8" and "unat (cur + 16) = unat cur + 16"
    and "unat (cur + szl * 8) = unat cur + 8 * unat szl"
    and "unat (cur + szl * 8 + 8) = unat cur + 8 * unat szl + 8"
    and "unat (cur + szl * 8 + 16) = unat cur + 8 * unat szl + 16"
proof -
  from assms have m: "unat (szl * 8) = 8 * unat szl"
    by (intro unat_times_8) simp
  from assms show "unat (cur + 8) = unat cur + 8"
    using unat_plus_small [of cur 8] by simp
  from assms show "unat (cur + 16) = unat cur + 16"
    using unat_plus_small [of cur 16] by simp
  from assms m show r: "unat (cur + szl * 8) = unat cur + 8 * unat szl"
    by (simp add: unat_word_ariths)
  from assms r show "unat (cur + szl * 8 + 8) = unat cur + 8 * unat szl + 8"
    using unat_plus_small [of "cur + szl * 8" 8] by simp
  from assms r show "unat (cur + szl * 8 + 16) = unat cur + 8 * unat szl + 16"
    using unat_plus_small [of "cur + szl * 8" 16] by simp
qed

lemma clear_of_words:
  fixes cur :: addr and szl szr :: "64 word"
  assumes "clear_of q cur (szl + szr)" and "q \<noteq> NULL"
    and "3 \<le> unat szl" and "3 \<le> unat szr"
    and "unat cur + 8 * (unat szl + unat szr) < 2 ^ 64"
  shows "q + 8 \<noteq> cur" "q + 8 \<noteq> cur + 8" "q + 8 \<noteq> cur + 16"
    "q + 8 \<noteq> cur + szl * 8" "q + 8 \<noteq> cur + szl * 8 + 8" "q + 8 \<noteq> cur + szl * 8 + 16"
proof -
  from assms(3-5) have b: "unat cur + 8 * unat szl + 24 \<le> 2 ^ 64"
    by simp
  note w = children_words [OF assms(3) b]
  from assms(3-5) have s: "unat (szl + szr) = unat szl + unat szr"
    by (simp add: unat_word_ariths)
  from assms(1,2) s consider "unat q + 24 \<le> unat cur"
    | "unat cur + 8 * (unat szl + unat szr) \<le> unat q" "unat q + 24 \<le> 2 ^ 64"
    by (auto simp: clear_of_def)
  then have q: "unat (q + 8) = unat q + 8 \<and>
      (unat q + 24 \<le> unat cur \<or> unat cur + 8 * (unat szl + unat szr) \<le> unat q)"
  proof cases
    case 1
    with assms(5) show ?thesis
      using unat_plus_small [of q 8] by simp
  next
    case 2
    then show ?thesis
      using unat_plus_small [of q 8] by simp
  qed
  then have q8: "unat (q + 8) = unat q + 8"
    and qd: "unat q + 24 \<le> unat cur \<or> unat cur + 8 * (unat szl + unat szr) \<le> unat q"
    by simp_all
  show "q + 8 \<noteq> cur" "q + 8 \<noteq> cur + 8" "q + 8 \<noteq> cur + 16"
    "q + 8 \<noteq> cur + szl * 8" "q + 8 \<noteq> cur + szl * 8 + 8" "q + 8 \<noteq> cur + szl * 8 + 16"
    by - ((rule neq_by_unat, (simp only: w q8; (insert qd assms(3,4), auto)))+)
qed

lemma children_neq:
  fixes cur :: addr and szl :: "64 word"
  assumes "3 \<le> unat szl" and "unat cur + 8 * unat szl + 24 \<le> 2 ^ 64"
  shows "cur \<noteq> cur + 8"
    "cur \<noteq> cur + 16"
    "cur \<noteq> cur + szl * 8"
    "cur \<noteq> cur + szl * 8 + 8"
    "cur \<noteq> cur + szl * 8 + 16"
    "cur + 8 \<noteq> cur + 16"
    "cur + 8 \<noteq> cur + szl * 8"
    "cur + 8 \<noteq> cur + szl * 8 + 8"
    "cur + 8 \<noteq> cur + szl * 8 + 16"
    "cur + 16 \<noteq> cur + szl * 8"
    "cur + 16 \<noteq> cur + szl * 8 + 8"
    "cur + 16 \<noteq> cur + szl * 8 + 16"
    "cur + szl * 8 \<noteq> cur + szl * 8 + 8"
    "cur + szl * 8 \<noteq> cur + szl * 8 + 16"
    "cur + szl * 8 + 8 \<noteq> cur + szl * 8 + 16"
  by - ((rule neq_by_unat, (simp only: children_words [OF assms]; (insert assms(1), simp)))+)

lemma take_bit_61_small:
  fixes w :: "64 word"
  assumes "8 * unat w < 2 ^ 64"
  shows "take_bit 61 w = w"
proof -
  from assms have "unat w < 2 ^ 61"
    by simp
  then have "w < 2 ^ 61"
    by (simp add: word_less_nat_alt)
  then show ?thesis
    by (simp add: take_bit_eq_mask less_mask_eq)
qed

lemma times_8_neq_0:
  fixes w :: "64 word"
  assumes "3 \<le> unat w" and "8 * unat w < 2 ^ 64"
  shows "w * 8 \<noteq> 0"
proof
  assume "w * 8 = 0"
  then have "unat (w * 8) = 0"
    by simp
  with unat_times_8 [OF assms(2)] assms(1) show False
    by simp
qed

text \<open>reading headers and links through the writes of links and headers\<close>

lemma hdr_get_upd:
  "b \<noteq> w \<Longrightarrow> item_get_size (h(w := v)) b = item_get_size h b"
  "b \<noteq> w \<Longrightarrow> item_is_in_use (h(w := v)) b = item_is_in_use h b"
  "b \<noteq> w \<Longrightarrow> item_get_lr_bit (h(w := v)) b = item_get_lr_bit h b"
  "b \<noteq> w \<Longrightarrow> item_get_inh_bit (h(w := v)) b = item_get_inh_bit h b"
  by (simp_all add: header_defs)

lemma hdr_set_other:
  "w \<noteq> a \<Longrightarrow> item_set_size h a n w = h w"
  "w \<noteq> a \<Longrightarrow> item_set_in_use h a v w = h w"
  "w \<noteq> a \<Longrightarrow> item_set_lr_bit h a v w = h w"
  "w \<noteq> a \<Longrightarrow> item_set_inh_bit h a v w = h w"
  by (simp_all add: header_defs Let_def)

lemma split_headers_other:
  "w \<noteq> cur \<Longrightarrow> w \<noteq> cur + szl * 8 \<Longrightarrow> split_headers h cur szl szr w = h w"
  by (simp add: split_headers_def Let_def hdr_set_other)

lemma merge_headers_other:
  "w \<noteq> left \<Longrightarrow> merge_headers h left right sz w = h w"
  by (simp add: merge_headers_def Let_def hdr_set_other)

lemma split_step_left_eq:
  assumes "data_at (array_cells s) (i - 4) = Some c4" and "data_at (array_cells s) (i - 1) = Some c1"
    and "n \<le> cell_size c4"
  shows "split_step s i cur n = Some (i - 4, cur,
           s\<lparr>heap := (let right = cur + cell_size c4 * 8;
                        h = (split_headers (heap s) cur (cell_size c4) (cell_size c1))(right + 16 := cell_items c1);
                        h = (if cell_items c1 \<noteq> NULL then h(cell_items c1 + 8 := right) else h)
                    in h(right + 8 := NULL)),
             array_cells := data_set_items (array_cells s) (i - 1) (cur + cell_size c4 * 8)\<rparr>)"
  using assms by (simp add: split_step_def insert_item_def Let_def link_defs)

lemma split_step_right_eq:
  assumes "data_at (array_cells s) (i - 4) = Some c4" and "data_at (array_cells s) (i - 1) = Some c1"
    and "\<not> n \<le> cell_size c4"
  shows "split_step s i cur n = Some (i - 1, cur + cell_size c4 * 8,
           s\<lparr>heap := (let h = (split_headers (heap s) cur (cell_size c4) (cell_size c1))(cur + 16 := cell_items c4);
                        h = (if cell_items c4 \<noteq> NULL then h(cell_items c4 + 8 := cur) else h)
                    in h(cur + 8 := NULL)),
             array_cells := data_set_items (array_cells s) (i - 4) cur\<rparr>)"
  using assms by (simp add: split_step_def insert_item_def Let_def link_defs)

lemma data_at_SomeD: "data_at d i = Some c \<Longrightarrow> unat i < length d \<and> c = d ! unat i"
  by (auto simp: data_at_def split: if_splits)

lemma index_minus:
  fixes i :: "32 word"
  assumes "4 < i"
  shows "unat (i - 4) = unat i - 4" "unat (i - 1) = unat i - 1" "unat (i - 3) = unat i - 3" "4 < unat i"
  using assms by (simp_all add: unat_sub word_le_nat_alt word_less_nat_alt)

text \<open>the store after \<^verbatim>\<open>insert_item\<close> has put \<open>item\<close> before \<open>head\<close>\<close>

definition ins_heap :: "heap \<Rightarrow> addr \<Rightarrow> addr \<Rightarrow> heap" where
  "ins_heap h item head =
     (let h = item_set_next h item head;
          h = (if head \<noteq> NULL then item_set_prev h head item else h)
      in item_set_prev h item NULL)"

lemma insert_item_eq:
  "insert_item s i item =
     (case data_at (array_cells s) i of
        None \<Rightarrow> None
      | Some c \<Rightarrow> Some (s\<lparr>heap := ins_heap (heap s) item (cell_items c),
                         array_cells := data_set_items (array_cells s) i item\<rparr>))"
  by (simp add: insert_item_def ins_heap_def Let_def split: option.splits)

lemma ins_heap_other:
  "w \<noteq> item + 8 \<Longrightarrow> w \<noteq> item + 16 \<Longrightarrow> (head \<noteq> NULL \<Longrightarrow> w \<noteq> head + 8)
     \<Longrightarrow> ins_heap h item head w = h w"
  by (simp add: ins_heap_def Let_def link_defs)

lemma ins_heap_prev: "ins_heap h item head (item + 8) = NULL"
  by (simp add: ins_heap_def Let_def link_defs)

lemma ins_heap_next:
  "(head \<noteq> NULL \<Longrightarrow> head + 8 \<noteq> item + 16) \<Longrightarrow> ins_heap h item head (item + 16) = head"
  by (auto simp: ins_heap_def Let_def link_defs)

text \<open>the store after \<^verbatim>\<open>delete_item\<close> has unlinked \<open>cur\<close>\<close>

definition del_heap :: "heap \<Rightarrow> addr \<Rightarrow> heap" where
  "del_heap h cur =
     (let prev = item_get_prev h cur;
          next = item_get_next h cur;
          h = (if prev \<noteq> NULL then item_set_next h prev next else h)
      in (if next \<noteq> NULL then item_set_prev h next prev else h))"

lemma delete_item_head:
  assumes "data_at (array_cells s) i = Some c" and "cell_items c = item" and "item \<noteq> NULL"
  shows "delete_item (Suc k) s i item =
           Some (s\<lparr>heap := del_heap (heap s) item,
                   array_cells := data_set_items (array_cells s) i (item_get_next (heap s) item)\<rparr>)"
  using assms by (simp add: delete_item_def del_heap_def Let_def)

lemma del_heap_other:
  "(h (cur + 8) \<noteq> NULL \<Longrightarrow> w \<noteq> h (cur + 8) + 16) \<Longrightarrow> (h (cur + 16) \<noteq> NULL \<Longrightarrow> w \<noteq> h (cur + 16) + 8)
     \<Longrightarrow> del_heap h cur w = h w"
  by (simp add: del_heap_def Let_def link_defs)

lemma hdr_eq:
  assumes "h' a = h a"
  shows "item_get_size h' a = item_get_size h a" "item_is_in_use h' a = item_is_in_use h a"
    "item_get_lr_bit h' a = item_get_lr_bit h a" "item_get_inh_bit h' a = item_get_inh_bit h a"
  using assms by (simp_all add: header_defs)

lemma item_get_buddy_Some:
  assumes "4 < i" and "unat i < length (array_cells s)"
  shows "\<exists>b ib. item_get_buddy s item i = Some (b, ib)"
  using assms index_minus(3) [OF assms(1)]
  by (auto simp: item_get_buddy_def Let_def data_at_def intro: less_imp_diff_less)

text \<open>
  One iteration of the loop of \<^verbatim>\<open>coalesce\<close> on two buddies that are the heads of their
  free lists.
\<close>

lemma merge_pair_left:
  fixes s :: state and cur :: addr
  defines "H \<equiv> heap s" and "d \<equiv> array_cells s"
  assumes i: "4 < i" and len: "unat i < length d"
    and c4: "cell_items (d ! (unat i - 4)) = cur"
    and c1: "cell_items (d ! (unat i - 1)) = cur + szl * 8"
    and szl: "3 \<le> unat szl" and szr: "3 \<le> unat szr"
    and room: "unat cur + 8 * (unat szl + unat szr) < 2 ^ 64"
    and nz: "cur \<noteq> NULL"
    and lr: "item_get_lr_bit H cur = LEFT"
    and prev: "H (cur + 8) = NULL" "H (cur + szl * 8 + 8) = NULL"
    and clear4: "clear_of (H (cur + 16)) cur (szl + szr)"
    and clear1: "clear_of (H (cur + szl * 8 + 16)) cur (szl + szr)"
    and cleari: "clear_of (cell_items (d ! unat i)) cur (szl + szr)"
  shows "\<exists>b ib s3.
           coalesce_step (Suc k) s (i - 4) cur (cur + szl * 8) (i - 1) = Some (i, cur, b, ib, s3) \<and>
           item_get_size (heap s3) cur = take_bit 61 (cell_size (d ! unat i)) \<and>
           \<not> item_is_in_use (heap s3) cur \<and>
           item_get_lr_bit (heap s3) cur = item_get_inh_bit H cur \<and>
           item_get_inh_bit (heap s3) cur = item_get_inh_bit H (cur + szl * 8) \<and>
           cell_items (array_cells s3 ! unat i) = cur \<and>
           cell_items (array_cells s3 ! (unat i - 4)) = H (cur + 16) \<and>
           cell_items (array_cells s3 ! (unat i - 1)) = H (cur + szl * 8 + 16) \<and>
           ladder s3 = ladder s"
proof -
  define right where "right = cur + szl * 8"
  define n4 where "n4 = H (cur + 16)"
  define n1 where "n1 = H (right + 16)"
  define hi where "hi = cell_items (d ! unat i)"
  from szl szr room have b: "unat cur + 8 * unat szl + 24 \<le> 2 ^ 64"
    by simp
  note ch = children_neq [OF szl b, folded right_def]
  note ix = index_minus [OF i]
  have q4: "n4 + 8 \<noteq> cur" "n4 + 8 \<noteq> cur + 8" "n4 + 8 \<noteq> cur + 16"
    "n4 + 8 \<noteq> right" "n4 + 8 \<noteq> right + 8" "n4 + 8 \<noteq> right + 16" if "n4 \<noteq> NULL"
    using clear_of_words [OF clear4 [folded n4_def] that szl szr room] by (simp_all add: right_def)
  have q1: "n1 + 8 \<noteq> cur" "n1 + 8 \<noteq> cur + 8" "n1 + 8 \<noteq> cur + 16"
    "n1 + 8 \<noteq> right" "n1 + 8 \<noteq> right + 8" "n1 + 8 \<noteq> right + 16" if "n1 \<noteq> NULL"
    using clear_of_words [OF clear1 [folded right_def, folded n1_def] that szl szr room]
    by (simp_all add: right_def)
  have qi: "hi + 8 \<noteq> cur" "hi + 8 \<noteq> cur + 8" "hi + 8 \<noteq> cur + 16"
    "hi + 8 \<noteq> right" "hi + 8 \<noteq> right + 8" "hi + 8 \<noteq> right + 16" if "hi \<noteq> NULL"
    using clear_of_words [OF cleari [folded hi_def] that szl szr room] by (simp_all add: right_def)
  note q4s = q4 [symmetric] and q1s = q1 [symmetric] and qis = qi [symmetric]
  have rz: "right \<noteq> NULL"
    using children_words(3) [OF szl b] szl by (intro neq_by_unat) (simp add: right_def)
  have four: "i - 4 + 4 = i" "i - 1 + 1 = i"
    by simp_all
  \<comment> \<open>the first \<^verbatim>\<open>delete_item\<close>\<close>
  define Ha where "Ha = del_heap H cur"
  define da where "da = data_set_items d (i - 4) n4"
  have "data_at (array_cells s) (i - 4) = Some (d ! (unat i - 4))"
    using len ix by (simp add: data_at_def d_def)
  from delete_item_head [OF this c4 nz, of k]
  have del1: "delete_item (Suc k) s (i - 4) cur = Some (s\<lparr>heap := Ha, array_cells := da\<rparr>)"
    by (simp add: Ha_def da_def H_def d_def n4_def link_defs)
  have Ha: "Ha w = H w" if "n4 \<noteq> NULL \<Longrightarrow> w \<noteq> n4 + 8" for w
    unfolding Ha_def using that prev(1) by (intro del_heap_other) (simp_all add: n4_def)
  have Ha_cur: "Ha cur = H cur"
    by (rule Ha) (rule q4s(1))
  have Ha_right: "Ha right = H right"
    by (rule Ha) (rule q4s(4))
  have "Ha (right + 8) = H (right + 8)"
    by (rule Ha) (rule q4s(5))
  with prev(2) have Ha_r8: "Ha (right + 8) = NULL"
    by (simp add: right_def)
  have Ha_r16: "Ha (right + 16) = n1"
    unfolding n1_def by (rule Ha) (rule q4s(6))
  have da: "length da = length d" "da ! (unat i - 1) = d ! (unat i - 1)" "da ! unat i = d ! unat i"
    "cell_items (da ! (unat i - 4)) = n4"
    using len ix by (simp_all add: da_def data_set_items_def)
  have da_sz: "map cell_size da = map cell_size d"
    by (simp add: da_def)
  \<comment> \<open>the second \<^verbatim>\<open>delete_item\<close>\<close>
  define Hb where "Hb = del_heap Ha right"
  define db where "db = data_set_items da (i - 1) n1"
  have "data_at (array_cells (s\<lparr>heap := Ha, array_cells := da\<rparr>)) (i - 1) = Some (d ! (unat i - 1))"
    using len ix da by (simp add: data_at_def)
  from delete_item_head [OF this c1 [folded right_def] rz, of k]
  have del2: "delete_item (Suc k) (s\<lparr>heap := Ha, array_cells := da\<rparr>) (i - 1) right
                = Some (s\<lparr>heap := Hb, array_cells := db\<rparr>)"
    by (simp add: Hb_def db_def link_defs Ha_r16)
  have Hb: "Hb w = Ha w" if "n1 \<noteq> NULL \<Longrightarrow> w \<noteq> n1 + 8" for w
    unfolding Hb_def using that Ha_r8 Ha_r16 by (intro del_heap_other) simp_all
  have "Hb cur = Ha cur"
    by (rule Hb) (rule q1s(1))
  with Ha_cur have Hb_cur: "Hb cur = H cur"
    by simp
  have "Hb right = Ha right"
    by (rule Hb) (rule q1s(4))
  with Ha_right have Hb_right: "Hb right = H right"
    by simp
  have db: "length db = length d" "db ! unat i = d ! unat i"
    "cell_items (db ! (unat i - 4)) = n4" "cell_items (db ! (unat i - 1)) = n1"
    using len ix da by (simp_all add: db_def data_set_items_def)
  have db_sz: "map cell_size db = map cell_size d"
    by (simp add: db_def da_sz)
  \<comment> \<open>the merge\<close>
  define Hm where "Hm = merge_headers Hb cur right (cell_size (d ! unat i))"
  from item_get_buddy_Some [OF i, of "s\<lparr>array_cells := db, heap := Hm\<rparr>" cur] len db(1)
  obtain b' ib' where bud: "item_get_buddy (s\<lparr>array_cells := db, heap := Hm\<rparr>) cur i = Some (b', ib')"
    by auto
  define s3 where "s3 = s\<lparr>array_cells := db, heap := Hm\<rparr>
                          \<lparr>heap := ins_heap Hm cur hi, array_cells := data_set_items db i cur\<rparr>"
  have ins: "insert_item (s\<lparr>array_cells := db, heap := Hm\<rparr>) i cur = Some s3"
    using len db(1,2) by (simp add: insert_item_eq data_at_def s3_def hi_def)
  have lrb: "item_get_lr_bit Hb cur = LEFT"
    using lr hdr_eq(3) [of Hb cur H, OF Hb_cur] by simp
  have step: "coalesce_step (Suc k) s (i - 4) cur right (i - 1) = Some (i, cur, b', ib', s3)"
    using len db(1,2) lrb bud ins
    by (simp add: coalesce_step_def del1 del2 four Let_def data_at_def Hm_def [symmetric])
  have "ins_heap Hm cur hi cur = Hm cur"
    by (rule ins_heap_other) (rule ch(1) ch(2) qis(1), assumption?)+
  then have H3_cur: "heap s3 cur = Hm cur"
    by (simp add: s3_def)
  have cells3: "cell_items (array_cells s3 ! unat i) = cur"
    "cell_items (array_cells s3 ! (unat i - 4)) = n4"
    "cell_items (array_cells s3 ! (unat i - 1)) = n1"
    using len ix db by (simp_all add: s3_def data_set_items_def)
  have lad3: "ladder s3 = ladder s"
    by (simp add: s3_def ladder_def db_sz d_def)
  from step hdr_eq [of "heap s3" cur Hm, OF H3_cur] hdr_eq [of Hb cur H, OF Hb_cur]
    hdr_eq [of Hb right H, OF Hb_right] cells3 lad3 show ?thesis
    by (simp add: Hm_def merge_headers_at_left right_def n4_def n1_def)
qed

lemma merge_pair_right:
  fixes s :: state and cur :: addr
  defines "H \<equiv> heap s" and "d \<equiv> array_cells s"
  assumes i: "4 < i" and len: "unat i < length d"
    and c4: "cell_items (d ! (unat i - 4)) = cur"
    and c1: "cell_items (d ! (unat i - 1)) = cur + szl * 8"
    and szl: "3 \<le> unat szl" and szr: "3 \<le> unat szr"
    and room: "unat cur + 8 * (unat szl + unat szr) < 2 ^ 64"
    and nz: "cur \<noteq> NULL"
    and lr: "item_get_lr_bit H (cur + szl * 8) = RIGHT"
    and prev: "H (cur + 8) = NULL" "H (cur + szl * 8 + 8) = NULL"
    and clear4: "clear_of (H (cur + 16)) cur (szl + szr)"
    and clear1: "clear_of (H (cur + szl * 8 + 16)) cur (szl + szr)"
    and cleari: "clear_of (cell_items (d ! unat i)) cur (szl + szr)"
  shows "\<exists>b ib s3.
           coalesce_step (Suc k) s (i - 1) (cur + szl * 8) cur (i - 4) = Some (i, cur, b, ib, s3) \<and>
           item_get_size (heap s3) cur = take_bit 61 (cell_size (d ! unat i)) \<and>
           \<not> item_is_in_use (heap s3) cur \<and>
           item_get_lr_bit (heap s3) cur = item_get_inh_bit H cur \<and>
           item_get_inh_bit (heap s3) cur = item_get_inh_bit H (cur + szl * 8) \<and>
           cell_items (array_cells s3 ! unat i) = cur \<and>
           cell_items (array_cells s3 ! (unat i - 4)) = H (cur + 16) \<and>
           cell_items (array_cells s3 ! (unat i - 1)) = H (cur + szl * 8 + 16) \<and>
           ladder s3 = ladder s"
proof -
  define right where "right = cur + szl * 8"
  define n4 where "n4 = H (cur + 16)"
  define n1 where "n1 = H (right + 16)"
  define hi where "hi = cell_items (d ! unat i)"
  from szl szr room have b: "unat cur + 8 * unat szl + 24 \<le> 2 ^ 64"
    by simp
  note ch = children_neq [OF szl b, folded right_def]
  note ix = index_minus [OF i]
  have q4: "n4 + 8 \<noteq> cur" "n4 + 8 \<noteq> cur + 8" "n4 + 8 \<noteq> cur + 16"
    "n4 + 8 \<noteq> right" "n4 + 8 \<noteq> right + 8" "n4 + 8 \<noteq> right + 16" if "n4 \<noteq> NULL"
    using clear_of_words [OF clear4 [folded n4_def] that szl szr room] by (simp_all add: right_def)
  have q1: "n1 + 8 \<noteq> cur" "n1 + 8 \<noteq> cur + 8" "n1 + 8 \<noteq> cur + 16"
    "n1 + 8 \<noteq> right" "n1 + 8 \<noteq> right + 8" "n1 + 8 \<noteq> right + 16" if "n1 \<noteq> NULL"
    using clear_of_words [OF clear1 [folded right_def, folded n1_def] that szl szr room]
    by (simp_all add: right_def)
  have qi: "hi + 8 \<noteq> cur" "hi + 8 \<noteq> cur + 8" "hi + 8 \<noteq> cur + 16"
    "hi + 8 \<noteq> right" "hi + 8 \<noteq> right + 8" "hi + 8 \<noteq> right + 16" if "hi \<noteq> NULL"
    using clear_of_words [OF cleari [folded hi_def] that szl szr room] by (simp_all add: right_def)
  note q4s = q4 [symmetric] and q1s = q1 [symmetric] and qis = qi [symmetric]
  have rz: "right \<noteq> NULL"
    using children_words(3) [OF szl b] szl by (intro neq_by_unat) (simp add: right_def)
  have four: "i - 4 + 4 = i" "i - 1 + 1 = i"
    by simp_all
  \<comment> \<open>the first \<^verbatim>\<open>delete_item\<close>\<close>
  define Ha where "Ha = del_heap H right"
  define da where "da = data_set_items d (i - 1) n1"
  have "data_at (array_cells s) (i - 1) = Some (d ! (unat i - 1))"
    using len ix by (simp add: data_at_def d_def)
  from delete_item_head [OF this c1 [folded right_def] rz, of k]
  have del1: "delete_item (Suc k) s (i - 1) right = Some (s\<lparr>heap := Ha, array_cells := da\<rparr>)"
    by (simp add: Ha_def da_def H_def d_def n1_def link_defs)
  have Ha: "Ha w = H w" if "n1 \<noteq> NULL \<Longrightarrow> w \<noteq> n1 + 8" for w
    unfolding Ha_def using that prev(2)
    by (intro del_heap_other) (simp_all add: n1_def right_def)
  have Ha_cur: "Ha cur = H cur"
    by (rule Ha) (rule q1s(1))
  have Ha_right: "Ha right = H right"
    by (rule Ha) (rule q1s(4))
  have "Ha (cur + 8) = H (cur + 8)"
    by (rule Ha) (rule q1s(2))
  with prev(1) have Ha_c8: "Ha (cur + 8) = NULL"
    by simp
  have Ha_c16: "Ha (cur + 16) = n4"
    unfolding n4_def by (rule Ha) (rule q1s(3))
  have da: "length da = length d" "da ! (unat i - 4) = d ! (unat i - 4)" "da ! unat i = d ! unat i"
    "cell_items (da ! (unat i - 1)) = n1"
    using len ix by (simp_all add: da_def data_set_items_def)
  have da_sz: "map cell_size da = map cell_size d"
    by (simp add: da_def)
  \<comment> \<open>the second \<^verbatim>\<open>delete_item\<close>\<close>
  define Hb where "Hb = del_heap Ha cur"
  define db where "db = data_set_items da (i - 4) n4"
  have "data_at (array_cells (s\<lparr>heap := Ha, array_cells := da\<rparr>)) (i - 4) = Some (d ! (unat i - 4))"
    using len ix da by (simp add: data_at_def)
  from delete_item_head [OF this c4 nz, of k]
  have del2: "delete_item (Suc k) (s\<lparr>heap := Ha, array_cells := da\<rparr>) (i - 4) cur
                = Some (s\<lparr>heap := Hb, array_cells := db\<rparr>)"
    by (simp add: Hb_def db_def link_defs Ha_c16)
  have Hb: "Hb w = Ha w" if "n4 \<noteq> NULL \<Longrightarrow> w \<noteq> n4 + 8" for w
    unfolding Hb_def using that Ha_c8 Ha_c16 by (intro del_heap_other) simp_all
  have "Hb cur = Ha cur"
    by (rule Hb) (rule q4s(1))
  with Ha_cur have Hb_cur: "Hb cur = H cur"
    by simp
  have "Hb right = Ha right"
    by (rule Hb) (rule q4s(4))
  with Ha_right have Hb_right: "Hb right = H right"
    by simp
  have db: "length db = length d" "db ! unat i = d ! unat i"
    "cell_items (db ! (unat i - 4)) = n4" "cell_items (db ! (unat i - 1)) = n1"
    using len ix da by (simp_all add: db_def data_set_items_def)
  have db_sz: "map cell_size db = map cell_size d"
    by (simp add: db_def da_sz)
  \<comment> \<open>the merge\<close>
  define Hm where "Hm = merge_headers Hb cur right (cell_size (d ! unat i))"
  from item_get_buddy_Some [OF i, of "s\<lparr>array_cells := db, heap := Hm\<rparr>" cur] len db(1)
  obtain b' ib' where bud: "item_get_buddy (s\<lparr>array_cells := db, heap := Hm\<rparr>) cur i = Some (b', ib')"
    by auto
  define s3 where "s3 = s\<lparr>array_cells := db, heap := Hm\<rparr>
                          \<lparr>heap := ins_heap Hm cur hi, array_cells := data_set_items db i cur\<rparr>"
  have ins: "insert_item (s\<lparr>array_cells := db, heap := Hm\<rparr>) i cur = Some s3"
    using len db(1,2) by (simp add: insert_item_eq data_at_def s3_def hi_def)
  have lrb: "item_get_lr_bit Hb right = RIGHT"
    using lr hdr_eq(3) [of Hb right H, OF Hb_right] by (simp add: right_def)
  have step: "coalesce_step (Suc k) s (i - 1) right cur (i - 4) = Some (i, cur, b', ib', s3)"
    using len db(1,2) lrb bud ins
    by (simp add: coalesce_step_def del1 del2 four Let_def data_at_def Hm_def [symmetric])
  have "ins_heap Hm cur hi cur = Hm cur"
    by (rule ins_heap_other) (rule ch(1) ch(2) qis(1), assumption?)+
  then have H3_cur: "heap s3 cur = Hm cur"
    by (simp add: s3_def)
  have cells3: "cell_items (array_cells s3 ! unat i) = cur"
    "cell_items (array_cells s3 ! (unat i - 4)) = n4"
    "cell_items (array_cells s3 ! (unat i - 1)) = n1"
    using len ix db by (simp_all add: s3_def data_set_items_def)
  have lad3: "ladder s3 = ladder s"
    by (simp add: s3_def ladder_def db_sz d_def)
  from step hdr_eq [of "heap s3" cur Hm, OF H3_cur] hdr_eq [of Hb cur H, OF Hb_cur]
    hdr_eq [of Hb right H, OF Hb_right] cells3 lad3 show ?thesis
    by (simp add: Hm_def merge_headers_at_left right_def n4_def n1_def)
qed

lemma split_step_eq:
  assumes "data_at (array_cells s) (i - 4) = Some c4" and "data_at (array_cells s) (i - 1) = Some c1"
  shows "split_step s i cur n =
           Some (if n \<le> cell_size c4
                 then (i - 4, cur,
                       s\<lparr>heap := ins_heap (split_headers (heap s) cur (cell_size c4) (cell_size c1))
                                  (cur + cell_size c4 * 8) (cell_items c1),
                         array_cells := data_set_items (array_cells s) (i - 1) (cur + cell_size c4 * 8)\<rparr>)
                 else (i - 1, cur + cell_size c4 * 8,
                       s\<lparr>heap := ins_heap (split_headers (heap s) cur (cell_size c4) (cell_size c1))
                                  cur (cell_items c4),
                         array_cells := data_set_items (array_cells s) (i - 4) cur\<rparr>))"
  using assms by (simp add: split_step_def insert_item_eq Let_def)

text \<open>
  One iteration of \<^verbatim>\<open>split_item\<close>, and \<^verbatim>\<open>insert_item\<close> for the child it went on with: both
  children head their free lists, with the headers that the split gave them.
\<close>

lemma split_insert:
  fixes s :: state and cur :: addr
  defines "d \<equiv> array_cells s"
  assumes d4: "data_at d (i - 4) = Some c4" and d1: "data_at d (i - 1) = Some c1"
    and di: "data_at d i = Some c"
    and i: "4 < i"
    and szl: "3 \<le> unat (cell_size c4)" and szr: "3 \<le> unat (cell_size c1)"
    and room: "unat cur + 8 * (unat (cell_size c4) + unat (cell_size c1)) < 2 ^ 64"
    and clear4: "clear_of (cell_items c4) cur (cell_size c4 + cell_size c1)"
    and clear1: "clear_of (cell_items c1) cur (cell_size c4 + cell_size c1)"
  shows "\<exists>i' cur' s1 s2.
           split_step s i cur n = Some (i', cur', s1) \<and>
           (i', cur') = (if n \<le> cell_size c4 then (i - 4, cur) else (i - 1, cur + cell_size c4 * 8)) \<and>
           insert_item s1 i' cur' = Some s2 \<and>
           item_get_inh_bit (heap s1) cur = item_get_lr_bit (heap s) cur \<and>
           item_get_inh_bit (heap s1) (cur + cell_size c4 * 8) = item_get_inh_bit (heap s) cur \<and>
           length (array_cells s2) = length d \<and>
           array_cells s2 ! (unat i - 4) = c4\<lparr>cell_items := cur\<rparr> \<and>
           array_cells s2 ! (unat i - 1) = c1\<lparr>cell_items := cur + cell_size c4 * 8\<rparr> \<and>
           array_cells s2 ! unat i = c \<and>
           item_get_size (heap s2) cur = cell_size c4 \<and>
           item_get_lr_bit (heap s2) cur = LEFT \<and>
           \<not> item_is_in_use (heap s2) cur \<and>
           item_get_inh_bit (heap s2) cur = item_get_lr_bit (heap s) cur \<and>
           item_get_size (heap s2) (cur + cell_size c4 * 8) = cell_size c1 \<and>
           item_get_lr_bit (heap s2) (cur + cell_size c4 * 8) = RIGHT \<and>
           \<not> item_is_in_use (heap s2) (cur + cell_size c4 * 8) \<and>
           item_get_inh_bit (heap s2) (cur + cell_size c4 * 8) = item_get_inh_bit (heap s) cur \<and>
           heap s2 (cur + 8) = NULL \<and> heap s2 (cur + cell_size c4 * 8 + 8) = NULL \<and>
           heap s2 (cur + 16) = cell_items c4 \<and>
           heap s2 (cur + cell_size c4 * 8 + 16) = cell_items c1"
proof -
  let ?szl = "cell_size c4" and ?szr = "cell_size c1"
  define right where "right = cur + ?szl * 8"
  define h4 where "h4 = cell_items c4"
  define h1 where "h1 = cell_items c1"
  from szl szr room have b: "unat cur + 8 * unat ?szl + 24 \<le> 2 ^ 64"
    by simp
  note ch = children_neq [OF szl b, folded right_def]
  note chs = ch [symmetric]
  from szl room have ne: "?szl * 8 \<noteq> 0"
    by (intro times_8_neq_0) simp_all
  from room have tb: "take_bit 61 ?szl = ?szl" "take_bit 61 ?szr = ?szr"
    by (simp_all add: take_bit_61_small)
  note ix = index_minus [OF i]
  from data_at_SomeD [OF d4] data_at_SomeD [OF d1] data_at_SomeD [OF di] ix
  have len: "unat i < length d" and c4: "c4 = d ! (unat i - 4)" and c1: "c1 = d ! (unat i - 1)"
    and c: "c = d ! unat i"
    by simp_all
  have q4: "h4 + 8 \<noteq> cur" "h4 + 8 \<noteq> cur + 8" "h4 + 8 \<noteq> cur + 16"
    "h4 + 8 \<noteq> right" "h4 + 8 \<noteq> right + 8" "h4 + 8 \<noteq> right + 16" if "h4 \<noteq> NULL"
    using clear_of_words [OF clear4 [folded h4_def] that szl szr room] by (simp_all add: right_def)
  have q1: "h1 + 8 \<noteq> cur" "h1 + 8 \<noteq> cur + 8" "h1 + 8 \<noteq> cur + 16"
    "h1 + 8 \<noteq> right" "h1 + 8 \<noteq> right + 8" "h1 + 8 \<noteq> right + 16" if "h1 \<noteq> NULL"
    using clear_of_words [OF clear1 [folded h1_def] that szl szr room] by (simp_all add: right_def)
  note q4s = q4 [symmetric] and q1s = q1 [symmetric]
  define H1 where "H1 = split_headers (heap s) cur ?szl ?szr"
  have H1_cur: "item_get_size H1 cur = ?szl" "item_get_lr_bit H1 cur = LEFT"
    "\<not> item_is_in_use H1 cur" "item_get_inh_bit H1 cur = item_get_lr_bit (heap s) cur"
    using split_headers_left [OF ne, of "heap s" cur ?szr] tb by (simp_all add: H1_def)
  have H1_right: "item_get_size H1 right = ?szr" "item_get_lr_bit H1 right = RIGHT"
    "\<not> item_is_in_use H1 right" "item_get_inh_bit H1 right = item_get_inh_bit (heap s) cur"
    using split_headers_right [OF ne, of "heap s" cur ?szr] tb by (simp_all add: H1_def right_def)
  \<comment> \<open>the two stores that \<^verbatim>\<open>insert_item\<close> can be given, and what it makes of them\<close>
  have R: "ins_heap h right h1 cur = h cur" "ins_heap h right h1 right = h right"
    "ins_heap h right h1 (cur + 8) = h (cur + 8)" "ins_heap h right h1 (cur + 16) = h (cur + 16)" for h
    by (rule ins_heap_other, (rule ch chs q1 q1s, assumption?)+)+
  have R': "ins_heap h right h1 (right + 8) = NULL" "ins_heap h right h1 (right + 16) = h1" for h
    by (rule ins_heap_prev) (rule ins_heap_next, rule q1(6))
  have L: "ins_heap h cur h4 cur = h cur" "ins_heap h cur h4 right = h right"
    "ins_heap h cur h4 (right + 8) = h (right + 8)" "ins_heap h cur h4 (right + 16) = h (right + 16)" for h
    by (rule ins_heap_other, (rule ch chs q4 q4s, assumption?)+)+
  have L': "ins_heap h cur h4 (cur + 8) = NULL" "ins_heap h cur h4 (cur + 16) = h4" for h
    by (rule ins_heap_prev) (rule ins_heap_next, rule q4(3))
  have cells: "length d2 = length d \<and> d2 ! (unat i - 4) = c4\<lparr>cell_items := cur\<rparr> \<and>
      d2 ! (unat i - 1) = c1\<lparr>cell_items := right\<rparr> \<and> d2 ! unat i = c"
    if "d2 = data_set_items (data_set_items d (i - 1) right) (i - 4) cur \<or>
        d2 = data_set_items (data_set_items d (i - 4) cur) (i - 1) right" for d2
    using that len ix by (auto simp: data_set_items_def c4 c1 c)
  show ?thesis
  proof (cases "n \<le> ?szl")
    case True
    define s1 where "s1 = s\<lparr>heap := ins_heap H1 right h1,
                               array_cells := data_set_items d (i - 1) right\<rparr>"
    define s2 where "s2 = s1\<lparr>heap := ins_heap (heap s1) cur h4,
                                array_cells := data_set_items (array_cells s1) (i - 4) cur\<rparr>"
    have step: "split_step s i cur n = Some (i - 4, cur, s1)"
      using split_step_eq [OF d4 [unfolded d_def] d1 [unfolded d_def], of cur n] True
      by (simp add: s1_def H1_def right_def h1_def d_def)
    have "data_at (array_cells s1) (i - 4) = Some c4"
      using len ix by (simp add: s1_def data_at_def data_set_items_def c4)
    then have ins: "insert_item s1 (i - 4) cur = Some s2"
      by (simp add: insert_item_eq s2_def h4_def)
    have h1: "heap s1 = ins_heap H1 right h1" and h2: "heap s2 = ins_heap (ins_heap H1 right h1) cur h4"
      and d2: "array_cells s2 = data_set_items (data_set_items d (i - 1) right) (i - 4) cur"
      by (simp_all add: s1_def s2_def)
    have w1: "heap s1 cur = H1 cur" "heap s1 right = H1 right"
      and w2: "heap s2 cur = H1 cur" "heap s2 right = H1 right"
      "heap s2 (cur + 8) = NULL" "heap s2 (right + 8) = NULL"
      "heap s2 (cur + 16) = h4" "heap s2 (right + 16) = h1"
      by (simp_all add: h1 h2 L L' R R')
    from step ins True cells [of "array_cells s2"] d2 H1_cur H1_right
      hdr_eq [of "heap s1" cur H1, OF w1(1)] hdr_eq [of "heap s1" right H1, OF w1(2)]
      hdr_eq [of "heap s2" cur H1, OF w2(1)] hdr_eq [of "heap s2" right H1, OF w2(2)] w2(3-6)
    show ?thesis
      by - (rule exI [of _ "i - 4"], rule exI [of _ cur], rule exI [of _ s1], rule exI [of _ s2],
            simp add: right_def h4_def h1_def)
  next
    case False
    define s1 where "s1 = s\<lparr>heap := ins_heap H1 cur h4,
                               array_cells := data_set_items d (i - 4) cur\<rparr>"
    define s2 where "s2 = s1\<lparr>heap := ins_heap (heap s1) right h1,
                                array_cells := data_set_items (array_cells s1) (i - 1) right\<rparr>"
    have step: "split_step s i cur n = Some (i - 1, right, s1)"
      using split_step_eq [OF d4 [unfolded d_def] d1 [unfolded d_def], of cur n] False
      by (simp add: s1_def H1_def right_def h4_def d_def)
    have "data_at (array_cells s1) (i - 1) = Some c1"
      using len ix by (simp add: s1_def data_at_def data_set_items_def c1)
    then have ins: "insert_item s1 (i - 1) right = Some s2"
      by (simp add: insert_item_eq s2_def h1_def)
    have h1: "heap s1 = ins_heap H1 cur h4" and h2: "heap s2 = ins_heap (ins_heap H1 cur h4) right h1"
      and d2: "array_cells s2 = data_set_items (data_set_items d (i - 4) cur) (i - 1) right"
      by (simp_all add: s1_def s2_def)
    have w1: "heap s1 cur = H1 cur" "heap s1 right = H1 right"
      and w2: "heap s2 cur = H1 cur" "heap s2 right = H1 right"
      "heap s2 (cur + 8) = NULL" "heap s2 (right + 8) = NULL"
      "heap s2 (cur + 16) = h4" "heap s2 (right + 16) = h1"
      by (simp_all add: h1 h2 L L' R R')
    from step ins False cells [of "array_cells s2"] d2 H1_cur H1_right
      hdr_eq [of "heap s1" cur H1, OF w1(1)] hdr_eq [of "heap s1" right H1, OF w1(2)]
      hdr_eq [of "heap s2" cur H1, OF w2(1)] hdr_eq [of "heap s2" right H1, OF w2(2)] w2(3-6)
    show ?thesis
      by - (rule exI [of _ "i - 1"], rule exI [of _ right], rule exI [of _ s1], rule exI [of _ s2],
            simp add: right_def h4_def h1_def)
  qed
qed

text \<open>
  A state in which the parent of \<open>example_parent\<close> waits to be split: the initial ladder,
  the block of 19 blocks (index 6) at address 4728, and blocks at 6000, 7000 and 8000 on the
  free lists of the cells 2, 5 and 6.
\<close>

definition example_busy :: state where
  "example_busy =
     \<lparr>heap = example_parent,
      array_cells =
        [\<lparr>cell_size = 3, cell_items = NULL\<rparr>, \<lparr>cell_size = 4, cell_items = NULL\<rparr>,
         \<lparr>cell_size = 5, cell_items = 6000\<rparr>, \<lparr>cell_size = 7, cell_items = NULL\<rparr>,
         \<lparr>cell_size = 10, cell_items = NULL\<rparr>, \<lparr>cell_size = 14, cell_items = 7000\<rparr>,
         \<lparr>cell_size = 19, cell_items = 8000\<rparr>, \<lparr>cell_size = 26, cell_items = NULL\<rparr>,
         \<lparr>cell_size = 36, cell_items = NULL\<rparr>, \<lparr>cell_size = 50, cell_items = NULL\<rparr>,
         \<lparr>cell_size = 69, cell_items = NULL\<rparr>],
      array_data = 4112, array_size = 11, array_capacity = 16, mem_list = 4096,
      host_brk = 9000, host_regions = []\<rparr>"

lemma example_busy_facts:
  "data_at (array_cells example_busy) (6 - 4) = Some \<lparr>cell_size = 5, cell_items = 6000\<rparr>"
  "data_at (array_cells example_busy) (6 - 1) = Some \<lparr>cell_size = 14, cell_items = 7000\<rparr>"
  "data_at (array_cells example_busy) 6 = Some \<lparr>cell_size = 19, cell_items = 8000\<rparr>"
  "item_get_size (heap example_busy) 4728 = 19"
  "\<not> item_is_in_use (heap example_busy) 4728"
  "clear_of 6000 4728 (5 + 14)" "clear_of 7000 4728 (5 + 14)" "clear_of 8000 4728 (5 + 14)"
  by (simp_all add: example_busy_def example_parent_def data_at_def clear_of_def header_defs)

text \<open>
  Claim C8, amended.  Whenever a split occurs, that is in each iteration of \<^verbatim>\<open>split_item\<close>
  (the guard of the loop holds, and \<^verbatim>\<open>split_item\<close> goes on with what \<open>split_step\<close> returns),
  the parent's \<open>lr\<close> bit is copied to the left child's \<open>inh\<close> and the parent's \<open>inh\<close> bit to
  the right child's \<open>inh\<close>; the left child's \<open>lr\<close> is \<open>LEFT\<close> and the right child's
  \<open>lr\<close> is \<open>RIGHT\<close>; the children have the sizes of the cells \<open>i - 4\<close> and \<open>i - 1\<close> and
  are not in use.  This is what the headers hold after the whole iteration, the call of
  \<^verbatim>\<open>insert_item\<close> included.  The hypotheses: the two cells hold at least 3 blocks, the block
  lies within the address space, and the heads of the free lists of the cells \<open>i - 4\<close> and
  \<open>i - 1\<close> are clear of the block.
\<close>

theorem split_step_bits:
  assumes d4: "data_at (array_cells s) (i - 4) = Some c4"
    and d1: "data_at (array_cells s) (i - 1) = Some c1"
    and guard: "n \<le> cell_size c1" "4 < i"
    and szl: "3 \<le> unat (cell_size c4)" and szr: "3 \<le> unat (cell_size c1)"
    and room: "unat cur + 8 * (unat (cell_size c4) + unat (cell_size c1)) < 2 ^ 64"
    and clear4: "clear_of (cell_items c4) cur (cell_size c4 + cell_size c1)"
    and clear1: "clear_of (cell_items c1) cur (cell_size c4 + cell_size c1)"
  shows "\<exists>i' cur' s'.
           split_step s i cur n = Some (i', cur', s') \<and>
           split_item s i cur n = split_item s' i' cur' n \<and>
           (i', cur') = (if n \<le> cell_size c4 then (i - 4, cur)
                         else (i - 1, cur + cell_size c4 * BLOCK_SIZE)) \<and>
           item_get_lr_bit (heap s') cur = LEFT \<and>
           item_get_lr_bit (heap s') (cur + cell_size c4 * BLOCK_SIZE) = RIGHT \<and>
           item_get_inh_bit (heap s') cur = item_get_lr_bit (heap s) cur \<and>
           item_get_inh_bit (heap s') (cur + cell_size c4 * BLOCK_SIZE) = item_get_inh_bit (heap s) cur \<and>
           item_get_size (heap s') cur = cell_size c4 \<and>
           item_get_size (heap s') (cur + cell_size c4 * BLOCK_SIZE) = cell_size c1 \<and>
           \<not> item_is_in_use (heap s') cur \<and>
           \<not> item_is_in_use (heap s') (cur + cell_size c4 * BLOCK_SIZE)"
proof -
  let ?szl = "cell_size c4" and ?szr = "cell_size c1"
  let ?right = "cur + ?szl * 8"
  from szl szr room have b: "unat cur + 8 * unat ?szl + 24 \<le> 2 ^ 64"
    by simp
  note ch = children_neq [OF szl b]
  from szl room have ne: "?szl * 8 \<noteq> 0"
    by (intro times_8_neq_0) simp_all
  from room have tb: "take_bit 61 ?szl = ?szl" "take_bit 61 ?szr = ?szr"
    by (simp_all add: take_bit_61_small)
  show ?thesis
  proof (cases "n \<le> ?szl")
    case True
    note eq = split_step_left_eq [OF d4 d1 True, of cur]
    have q: "cell_items c1 + 8 \<noteq> cur" "cell_items c1 + 8 \<noteq> ?right"
      "cur \<noteq> cell_items c1 + 8" "?right \<noteq> cell_items c1 + 8" if "cell_items c1 \<noteq> NULL"
      using clear_of_words(1,4) [OF clear1 that szl szr room] by (simp_all add: eq_commute)
    from split_item_step [OF d1 guard eq] eq True ne tb ch q show ?thesis
      by (cases "cell_items c1 = NULL") (simp_all add: Let_def hdr_get_upd split_headers_left split_headers_right)
  next
    case False
    note eq = split_step_right_eq [OF d4 d1 False, of cur]
    have q: "cell_items c4 + 8 \<noteq> cur" "cell_items c4 + 8 \<noteq> ?right"
      "cur \<noteq> cell_items c4 + 8" "?right \<noteq> cell_items c4 + 8" if "cell_items c4 \<noteq> NULL"
      using clear_of_words(1,4) [OF clear4 that szl szr room] by (simp_all add: eq_commute)
    from split_item_step [OF d1 guard eq] eq False ne tb ch q show ?thesis
      by (cases "cell_items c4 = NULL") (simp_all add: Let_def hdr_get_upd split_headers_left split_headers_right)
  qed
qed

theorem split_step_bits_witness:
  "data_at (array_cells example_busy) (6 - 4) = Some \<lparr>cell_size = 5, cell_items = 6000\<rparr> \<and>
   data_at (array_cells example_busy) (6 - 1) = Some \<lparr>cell_size = 14, cell_items = 7000\<rparr> \<and>
   (3::64 word) \<le> 14 \<and> (4::32 word) < 6 \<and>
   clear_of 6000 4728 (5 + 14) \<and> clear_of 7000 4728 (5 + 14) \<and>
   (\<exists>i' cur' s'.
      split_step example_busy 6 4728 3 = Some (i', cur', s') \<and>
      split_item example_busy 6 4728 3 = split_item s' i' cur' 3 \<and>
      (i', cur') = (2, 4728) \<and>
      item_get_lr_bit (heap s') 4728 = LEFT \<and>
      item_get_lr_bit (heap s') 4768 = RIGHT \<and>
      item_get_inh_bit (heap s') 4728 = item_get_lr_bit (heap example_busy) 4728 \<and>
      item_get_inh_bit (heap s') 4768 = item_get_inh_bit (heap example_busy) 4728 \<and>
      item_get_size (heap s') 4728 = 5 \<and>
      item_get_size (heap s') 4768 = 14 \<and>
      \<not> item_is_in_use (heap s') 4728 \<and>
      \<not> item_is_in_use (heap s') 4768)"
  using split_step_bits [OF example_busy_facts(1,2), of 3 4728] example_busy_facts
  by simp

text \<open>
  Claim C5.  A block at the ladder index \<open>i > 4\<close> whose header holds the size of cell \<open>i\<close>
  and \<open>in_use = 0\<close> is split by one iteration of \<^verbatim>\<open>split_item\<close> (\<open>split_step\<close>) into a
  left child at index \<open>i - 4\<close> and a right child at index \<open>i - 1\<close>; one child is put on
  its free list by the iteration, the other one by \<^verbatim>\<open>insert_item\<close>, as \<^verbatim>\<open>mem_free\<close> does
  before it calls \<^verbatim>\<open>coalesce\<close>.  Then \<^verbatim>\<open>coalesce\<close> finds the buddy of that child to be the
  other child, free and whole, so that its loop is entered; one iteration
  (\<open>coalesce_step\<close>: two calls of \<^verbatim>\<open>delete_item\<close>, the header writes, \<^verbatim>\<open>insert_item\<close>)
  leaves at the parent's address the parent's header word, with its size, \<open>lr\<close> and \<open>inh\<close>,
  the \<open>lr\<close> coming from the left child's \<open>inh\<close> and the \<open>inh\<close> from the right child's
  \<open>inh\<close>; the block is the head of the free list of cell \<open>i\<close>, and \<^verbatim>\<open>coalesce\<close> goes on
  from there.  The hypotheses: the cells \<open>i - 4\<close> and \<open>i - 1\<close> hold at least 3 blocks, the
  block lies within the address space and not at \<^verbatim>\<open>NULL\<close>, and the heads of the free lists
  of the cells \<open>i - 4\<close>, \<open>i - 1\<close> and \<open>i\<close> are clear of the block.
\<close>

theorem split_merge_identity:
  assumes d4: "data_at (array_cells s) (i - 4) = Some c4"
    and d1: "data_at (array_cells s) (i - 1) = Some c1"
    and di: "data_at (array_cells s) i = Some c"
    and i: "4 < i" and guard: "n \<le> cell_size c1"
    and size: "item_get_size (heap s) cur = cell_size c"
    and free: "\<not> item_is_in_use (heap s) cur"
    and szl: "3 \<le> unat (cell_size c4)" and szr: "3 \<le> unat (cell_size c1)"
    and room: "unat cur + 8 * (unat (cell_size c4) + unat (cell_size c1)) < 2 ^ 64"
    and nz: "cur \<noteq> NULL"
    and clear4: "clear_of (cell_items c4) cur (cell_size c4 + cell_size c1)"
    and clear1: "clear_of (cell_items c1) cur (cell_size c4 + cell_size c1)"
    and cleari: "clear_of (cell_items c) cur (cell_size c4 + cell_size c1)"
  shows "\<exists>i' cur' buddy ibuddy s1 s2 b ib s3.
           split_step s i cur n = Some (i', cur', s1) \<and>
           split_item s i cur n = split_item s1 i' cur' n \<and>
           insert_item s1 i' cur' = Some s2 \<and>
           item_get_buddy s2 cur' i' = Some (buddy, ibuddy) \<and>
           (cur' = cur \<and> buddy = cur + cell_size c4 * BLOCK_SIZE \<or>
            cur' = cur + cell_size c4 * BLOCK_SIZE \<and> buddy = cur) \<and>
           \<not> item_is_in_use (heap s2) buddy \<and>
           map_option cell_size (data_at (array_cells s2) ibuddy)
             = Some (item_get_size (heap s2) buddy) \<and>
           coalesce_step (Suc k) s2 i' cur' buddy ibuddy = Some (i, cur, b, ib, s3) \<and>
           coalesce (Suc (Suc k)) s2 i' = coalesce_loop (Suc k) s3 i cur b ib \<and>
           heap s3 cur = heap s cur \<and>
           item_get_size (heap s3) cur = cell_size c \<and>
           item_get_lr_bit (heap s3) cur = item_get_inh_bit (heap s1) cur \<and>
           item_get_inh_bit (heap s3) cur
             = item_get_inh_bit (heap s1) (cur + cell_size c4 * BLOCK_SIZE) \<and>
           item_get_inh_bit (heap s1) cur = item_get_lr_bit (heap s) cur \<and>
           item_get_inh_bit (heap s1) (cur + cell_size c4 * BLOCK_SIZE)
             = item_get_inh_bit (heap s) cur \<and>
           cell_items (array_cells s3 ! unat i) = cur \<and>
           ladder s3 = ladder s"
proof -
  let ?szl = "cell_size c4" and ?szr = "cell_size c1"
  let ?right = "cur + ?szl * 8"
  note ix = index_minus [OF i]
  from split_insert [OF d4 d1 di i szl szr room clear4 clear1, of n]
  obtain i' cur' s1 s2 where step: "split_step s i cur n = Some (i', cur', s1)"
    and which: "(i', cur') = (if n \<le> ?szl then (i - 4, cur) else (i - 1, ?right))"
    and ins: "insert_item s1 i' cur' = Some s2"
    and inh1: "item_get_inh_bit (heap s1) cur = item_get_lr_bit (heap s) cur"
      "item_get_inh_bit (heap s1) ?right = item_get_inh_bit (heap s) cur"
    and len2: "length (array_cells s2) = length (array_cells s)"
    and cells2: "array_cells s2 ! (unat i - 4) = c4\<lparr>cell_items := cur\<rparr>"
      "array_cells s2 ! (unat i - 1) = c1\<lparr>cell_items := ?right\<rparr>"
      "array_cells s2 ! unat i = c"
    and hcur: "item_get_size (heap s2) cur = ?szl" "item_get_lr_bit (heap s2) cur = LEFT"
      "\<not> item_is_in_use (heap s2) cur" "item_get_inh_bit (heap s2) cur = item_get_lr_bit (heap s) cur"
    and hright: "item_get_size (heap s2) ?right = ?szr" "item_get_lr_bit (heap s2) ?right = RIGHT"
      "\<not> item_is_in_use (heap s2) ?right"
      "item_get_inh_bit (heap s2) ?right = item_get_inh_bit (heap s) cur"
    and links: "heap s2 (cur + 8) = NULL" "heap s2 (?right + 8) = NULL"
      "heap s2 (cur + 16) = cell_items c4" "heap s2 (?right + 16) = cell_items c1"
    by (elim exE conjE) (rule that)
  from data_at_SomeD [OF di] len2 have len: "unat i < length (array_cells s2)"
    by simp
  from split_item_step [OF d1 guard i step]
  have loop: "split_item s i cur n = split_item s1 i' cur' n" .
  have tb: "take_bit 61 (cell_size c) = cell_size c"
    using take_bit_get_size [of "heap s" cur] by (simp add: size)
  have d2: "data_at (array_cells s2) (i - 4) = Some (c4\<lparr>cell_items := cur\<rparr>)"
    "data_at (array_cells s2) (i - 1) = Some (c1\<lparr>cell_items := ?right\<rparr>)"
    using len ix cells2 by (simp_all add: data_at_def)
  have idx: "i - 4 + 3 = i - 1" "i - 1 - 3 = i - 4"
    by simp_all
  have restored: "heap s3 cur = heap s cur"
    if "item_get_size (heap s3) cur = take_bit 61 (cell_size c)" "\<not> item_is_in_use (heap s3) cur"
      "item_get_lr_bit (heap s3) cur = item_get_inh_bit (heap s2) cur"
      "item_get_inh_bit (heap s3) cur = item_get_inh_bit (heap s2) ?right" for s3
    using that tb size free hcur(4) hright(4)
    by (intro header_eqI [of "heap s3" cur "heap s" cur]) simp_all
  have p4: "cell_items (array_cells s2 ! (unat i - 4)) = cur"
    and p1: "cell_items (array_cells s2 ! (unat i - 1)) = cur + ?szl * 8"
    and cl4: "clear_of (heap s2 (cur + 16)) cur (?szl + ?szr)"
    and cl1: "clear_of (heap s2 (cur + ?szl * 8 + 16)) cur (?szl + ?szr)"
    and cli: "clear_of (cell_items (array_cells s2 ! unat i)) cur (?szl + ?szr)"
    using cells2 links clear4 clear1 cleari by simp_all
  show ?thesis
  proof (cases "n \<le> ?szl")
    case True
    with which have w: "i' = i - 4" "cur' = cur"
      by simp_all
    from merge_pair_left [OF i len p4 p1 szl szr room nz hcur(2) links(1,2) cl4 cl1 cli, of k]
    obtain b ib s3 where
      cs: "coalesce_step (Suc k) s2 (i - 4) cur ?right (i - 1) = Some (i, cur, b, ib, s3)"
      and h3': "item_get_size (heap s3) cur = take_bit 61 (cell_size (array_cells s2 ! unat i))"
      and h3'': "\<not> item_is_in_use (heap s3) cur"
        "item_get_lr_bit (heap s3) cur = item_get_inh_bit (heap s2) cur"
        "item_get_inh_bit (heap s3) cur = item_get_inh_bit (heap s2) ?right"
      and c3: "cell_items (array_cells s3 ! unat i) = cur" "ladder s3 = ladder s2"
      by (elim exE conjE) (rule that; assumption)
    note h3 = h3' [unfolded cells2(3)] h3''
    have bud: "item_get_buddy s2 cur (i - 4) = Some (?right, i - 1)"
      using hcur(1,2) by (simp add: item_get_buddy_def Let_def idx)
    have co: "coalesce (Suc (Suc k)) s2 (i - 4) = coalesce_loop (Suc k) s3 i cur b ib"
      using d2 bud hright(1,3) cs
      by (simp add: coalesce_def coalesce_loop.simps(2) [of "Suc k" s2] del: coalesce_loop.simps)
    have "ladder s2 = ladder s"
      using insert_item_same [OF ins] split_step_same [OF step] by (simp add: same_array_def)
    then have lad: "ladder s3 = ladder s"
      using c3(2) by simp
    have whole: "map_option cell_size (data_at (array_cells s2) (i - 1))
                   = Some (item_get_size (heap s2) ?right)"
      using d2(2) hright(1) by simp
    have bits: "item_get_size (heap s3) cur = cell_size c"
      "item_get_lr_bit (heap s3) cur = item_get_inh_bit (heap s1) cur"
      "item_get_inh_bit (heap s3) cur = item_get_inh_bit (heap s1) ?right"
      using h3 tb inh1 hcur(4) hright(4) by simp_all
    show ?thesis
      apply (rule exI [of _ "i - 4"], rule exI [of _ cur], rule exI [of _ ?right],
          rule exI [of _ "i - 1"], rule exI [of _ s1], rule exI [of _ s2], rule exI [of _ b],
          rule exI [of _ ib], rule exI [of _ s3])
      apply (intro conjI)
      apply (rule step [unfolded w] loop [unfolded w] ins [unfolded w] bud hright(3) whole cs co
          restored [OF h3] bits inh1 c3(1) lad disjI1 [OF conjI [OF refl refl]])+
      done
  next
    case False
    with which have w: "i' = i - 1" "cur' = ?right"
      by simp_all
    from merge_pair_right [OF i len p4 p1 szl szr room nz hright(2) links(1,2) cl4 cl1 cli, of k]
    obtain b ib s3 where
      cs: "coalesce_step (Suc k) s2 (i - 1) ?right cur (i - 4) = Some (i, cur, b, ib, s3)"
      and h3': "item_get_size (heap s3) cur = take_bit 61 (cell_size (array_cells s2 ! unat i))"
      and h3'': "\<not> item_is_in_use (heap s3) cur"
        "item_get_lr_bit (heap s3) cur = item_get_inh_bit (heap s2) cur"
        "item_get_inh_bit (heap s3) cur = item_get_inh_bit (heap s2) ?right"
      and c3: "cell_items (array_cells s3 ! unat i) = cur" "ladder s3 = ladder s2"
      by (elim exE conjE) (rule that; assumption)
    note h3 = h3' [unfolded cells2(3)] h3''
    have bud: "item_get_buddy s2 ?right (i - 1) = Some (cur, i - 4)"
      using hright(2) d2(1) by (simp add: item_get_buddy_def Let_def idx)
    have co: "coalesce (Suc (Suc k)) s2 (i - 1) = coalesce_loop (Suc k) s3 i cur b ib"
      using d2 bud hcur(1,3) cs
      by (simp add: coalesce_def coalesce_loop.simps(2) [of "Suc k" s2] del: coalesce_loop.simps)
    have "ladder s2 = ladder s"
      using insert_item_same [OF ins] split_step_same [OF step] by (simp add: same_array_def)
    then have lad: "ladder s3 = ladder s"
      using c3(2) by simp
    have whole: "map_option cell_size (data_at (array_cells s2) (i - 4))
                   = Some (item_get_size (heap s2) cur)"
      using d2(1) hcur(1) by simp
    have bits: "item_get_size (heap s3) cur = cell_size c"
      "item_get_lr_bit (heap s3) cur = item_get_inh_bit (heap s1) cur"
      "item_get_inh_bit (heap s3) cur = item_get_inh_bit (heap s1) ?right"
      using h3 tb inh1 hcur(4) hright(4) by simp_all
    show ?thesis
      apply (rule exI [of _ "i - 1"], rule exI [of _ ?right], rule exI [of _ cur],
          rule exI [of _ "i - 4"], rule exI [of _ s1], rule exI [of _ s2], rule exI [of _ b],
          rule exI [of _ ib], rule exI [of _ s3])
      apply (intro conjI)
      apply (rule step [unfolded w] loop [unfolded w] ins [unfolded w] bud hcur(3) whole cs co
          restored [OF h3] bits inh1 c3(1) lad disjI2 [OF conjI [OF refl refl]])+
      done
  qed
qed

theorem split_merge_identity_witness:
  "data_at (array_cells example_busy) (6 - 4) = Some \<lparr>cell_size = 5, cell_items = 6000\<rparr> \<and>
   data_at (array_cells example_busy) (6 - 1) = Some \<lparr>cell_size = 14, cell_items = 7000\<rparr> \<and>
   data_at (array_cells example_busy) 6 = Some \<lparr>cell_size = 19, cell_items = 8000\<rparr> \<and>
   (4::32 word) < 6 \<and> (6::64 word) \<le> 14 \<and>
   item_get_size (heap example_busy) 4728 = 19 \<and>
   \<not> item_is_in_use (heap example_busy) 4728 \<and>
   clear_of 6000 4728 (5 + 14) \<and> clear_of 7000 4728 (5 + 14) \<and> clear_of 8000 4728 (5 + 14) \<and>
   (\<exists>i' cur' buddy ibuddy s1 s2 b ib s3.
      split_step example_busy 6 4728 6 = Some (i', cur', s1) \<and>
      split_item example_busy 6 4728 6 = split_item s1 i' cur' 6 \<and>
      insert_item s1 i' cur' = Some s2 \<and>
      item_get_buddy s2 cur' i' = Some (buddy, ibuddy) \<and>
      (cur' = 4728 \<and> buddy = 4768 \<or> cur' = 4768 \<and> buddy = 4728) \<and>
      \<not> item_is_in_use (heap s2) buddy \<and>
      map_option cell_size (data_at (array_cells s2) ibuddy)
        = Some (item_get_size (heap s2) buddy) \<and>
      coalesce_step (Suc 0) s2 i' cur' buddy ibuddy = Some (6, 4728, b, ib, s3) \<and>
      coalesce (Suc (Suc 0)) s2 i' = coalesce_loop (Suc 0) s3 6 4728 b ib \<and>
      heap s3 4728 = heap example_busy 4728 \<and>
      item_get_size (heap s3) 4728 = 19 \<and>
      item_get_lr_bit (heap s3) 4728 = item_get_inh_bit (heap s1) 4728 \<and>
      item_get_inh_bit (heap s3) 4728 = item_get_inh_bit (heap s1) 4768 \<and>
      item_get_inh_bit (heap s1) 4728 = item_get_lr_bit (heap example_busy) 4728 \<and>
      item_get_inh_bit (heap s1) 4768 = item_get_inh_bit (heap example_busy) 4728 \<and>
      cell_items (array_cells s3 ! unat (6 :: 32 word)) = 4728 \<and>
      ladder s3 = ladder example_busy)"
  using split_merge_identity [OF example_busy_facts(1,2,3), of 6 4728 0] example_busy_facts
  by (simp del: coalesce_loop.simps)

section \<open>The ladder (claim C4)\<close>

text \<open>
  The generalized Fibonacci sequence of the ladder over the natural numbers:
  3, 4, 5, 7 and then \<open>a n = a (n - 1) + a (n - 4)\<close>.
\<close>

fun fibg :: "nat \<Rightarrow> nat" where
  "fibg 0 = 3"
| "fibg (Suc 0) = 4"
| "fibg (Suc (Suc 0)) = 5"
| "fibg (Suc (Suc (Suc 0))) = 7"
| "fibg (Suc (Suc (Suc (Suc n)))) = fibg (Suc (Suc (Suc n))) + fibg n"

definition array_ok :: "state \<Rightarrow> bool" where
  "array_ok s \<longleftrightarrow> unat (array_size s) = length (array_cells s)"

definition fib_ok :: "64 word list \<Rightarrow> bool" where
  "fib_ok l \<longleftrightarrow> (\<forall>i < length l. unat (l ! i) = fibg i)"

text \<open>
  The last term of the ladder, computed without wrap-around, fits a \<^verbatim>\<open>uintptr_t\<close>: no
  addition in \<^verbatim>\<open>array_inc_size\<close> has wrapped.
\<close>

definition ladder_nowrap :: "state \<Rightarrow> bool" where
  "ladder_nowrap s \<longleftrightarrow> fibg (length (array_cells s) - 1) < 2 ^ 64"


lemma fibg_pos: "3 \<le> fibg n"
  by (induction n rule: fibg.induct) simp_all

lemma fibg_rec: "4 \<le> n \<Longrightarrow> fibg n = fibg (n - 1) + fibg (n - 4)"
proof -
  assume "4 \<le> n"
  then have "n = Suc (Suc (Suc (Suc (n - 4))))"
    by arith
  then obtain m where "n = Suc (Suc (Suc (Suc m)))" ..
  then show ?thesis by simp
qed

lemma fibg_Suc_less: "fibg n < fibg (Suc n)"
proof (cases "n < 3")
  case True
  then have "n = 0 \<or> n = 1 \<or> n = 2" by arith
  then show ?thesis by (auto simp: numeral_2_eq_2)
next
  case False
  then have "fibg (Suc n) = fibg n + fibg (n - 3)"
    using fibg_rec [of "Suc n"] by simp
  with fibg_pos [of "n - 3"] show ?thesis by simp
qed

lemma fibg_strict_mono: "i < j \<Longrightarrow> fibg i < fibg j"
  by (induction j) (auto simp: less_Suc_eq intro: less_trans fibg_Suc_less)

lemma fibg_mono: "i \<le> j \<Longrightarrow> fibg i \<le> fibg j"
  using fibg_strict_mono [of i j] by (cases "i = j") auto

lemma fibg_ge: "n + 3 \<le> fibg n"
proof (induction n)
  case 0
  then show ?case by simp
next
  case (Suc n)
  with fibg_Suc_less [of n] show ?case by simp
qed

lemma fibg_inj: "fibg i = fibg j \<Longrightarrow> i = j"
  using fibg_strict_mono [of i j] fibg_strict_mono [of j i] by (cases i j rule: linorder_cases) auto

lemma fibg_double: "2 * fibg n \<le> fibg (n + 4)"
proof -
  have "fibg (n + 4) = fibg (n + 3) + fibg n"
    by (simp add: numeral_eq_Suc)
  moreover have "fibg n \<le> fibg (n + 3)"
    by (rule fibg_mono) simp
  ultimately show ?thesis
    by simp
qed

lemma fibg_exp_aux: "2 ^ k \<le> fibg (4 * k + r)"
proof (induction k)
  case 0
  from fibg_pos [of r] show ?case by simp
next
  case (Suc k)
  from fibg_double [of "4 * k + r"] have "2 * fibg (4 * k + r) \<le> fibg (4 * Suc k + r)"
    by (simp add: ac_simps)
  with Suc show ?case
    by simp
qed

lemma fibg_exp: "2 ^ (n div 4) \<le> fibg n"
  using fibg_exp_aux [of "n div 4" "n mod 4"] by simp

lemma fibg_upper: "fibg n \<le> 3 * 2 ^ n"
proof (induction n rule: fibg.induct)
  case (5 n)
  then show ?case by simp
qed simp_all

definition ladder_step :: "state \<Rightarrow> state \<Rightarrow> bool" where
  "ladder_step s s' \<longleftrightarrow>
     length (ladder s) \<le> length (ladder s') \<and>
     (array_ok s \<and> ladder_nowrap s' \<longrightarrow>
        array_ok s' \<and> prefix (ladder s) (ladder s') \<and>
        (fib_ok (ladder s) \<longrightarrow> fib_ok (ladder s')))"

lemma length_ladder [simp]: "length (ladder s) = length (array_cells s)"
  by (simp add: ladder_def)

lemma ladder_nowrap_length: "ladder_nowrap s \<Longrightarrow> length (array_cells s) < 2 ^ 32"
proof -
  assume "ladder_nowrap s"
  with fibg_exp [of "length (array_cells s) - 1"]
  have "(2::nat) ^ ((length (array_cells s) - 1) div 4) < 2 ^ 64"
    by (simp add: ladder_nowrap_def)
  then have "(length (array_cells s) - 1) div 4 < 64"
    by (rule power_less_imp_less_exp [rotated]) simp
  then show ?thesis
    by simp
qed


lemma ladder_nowrap_mono:
  "ladder_nowrap s' \<Longrightarrow> length (array_cells s) \<le> length (array_cells s') \<Longrightarrow> ladder_nowrap s"
proof -
  assume a: "ladder_nowrap s'" and b: "length (array_cells s) \<le> length (array_cells s')"
  from b have "length (array_cells s) - 1 \<le> length (array_cells s') - 1"
    by arith
  then have "fibg (length (array_cells s) - 1) \<le> fibg (length (array_cells s') - 1)"
    by (rule fibg_mono)
  with a show ?thesis
    by (simp add: ladder_nowrap_def)
qed

lemma ladder_step_refl: "ladder_step s s"
  by (simp add: ladder_step_def)

lemma ladder_step_trans: "ladder_step s s1 \<Longrightarrow> ladder_step s1 s2 \<Longrightarrow> ladder_step s s2"
  unfolding ladder_step_def
  by (auto dest: ladder_nowrap_mono [of s2 s1] intro: prefix_order.trans simp del: length_ladder)
     (auto dest: ladder_nowrap_mono [of s2 s1])

lemma ladder_step_same:
  "ladder s' = ladder s \<Longrightarrow> array_size s' = array_size s \<Longrightarrow> ladder_step s s'"
  unfolding ladder_step_def array_ok_def
  by (metis length_ladder order_refl prefix_order.order_refl)

lemma unat_sub_index:
  fixes i :: "32 word"
  assumes "unat (i - k) < unat i"
  shows "unat (i - k) = unat i - unat k \<and> unat k \<le> unat i"
proof (cases "k \<le> i")
  case True
  then show ?thesis by (simp add: unat_sub word_le_nat_alt)
next
  case False
  then have "i < k" by simp
  then have "unat (i - k) = unat i + 2 ^ 32 - unat k"
    by (simp add: unat_sub_if_size word_less_nat_alt word_size)
  moreover have "unat k < 2 ^ 32"
    using unsigned_less [of k] by simp
  ultimately show ?thesis
    using assms by simp
qed

lemma ladder_step_append:
  assumes c1: "data_at (array_cells s) (array_size s - 1) = Some c1"
    and c4: "data_at (array_cells s) (array_size s - 4) = Some c4"
    and d: "data_write (array_cells s) (array_size s)
              \<lparr>cell_size = cell_size c1 + cell_size c4, cell_items = NULL\<rparr> = Some d"
  shows "ladder_step s (s\<lparr>array_size := array_size s + 1, array_cells := d\<rparr>)"
proof -
  let ?s' = "s\<lparr>array_size := array_size s + 1, array_cells := d\<rparr>"
  let ?c = "\<lparr>cell_size = cell_size c1 + cell_size c4, cell_items = NULL\<rparr>"
  let ?n = "length (array_cells s)"
  have len: "?n \<le> length d"
    using d by (auto simp: data_write_def split: if_splits)
  have rest: "array_ok ?s' \<and> prefix (ladder s) (ladder ?s') \<and>
              (fib_ok (ladder s) \<longrightarrow> fib_ok (ladder ?s'))"
    if ok: "array_ok s" and small: "ladder_nowrap ?s'"
  proof -
    from ok have i: "unat (array_size s) = ?n"
      by (simp add: array_ok_def)
    with d have d_eq: "d = array_cells s @ [?c]"
      by (simp add: data_write_def)
    have "length d < 2 ^ 32"
      using ladder_nowrap_length [OF small] by simp
    with d_eq i have "unat (array_size s + 1) = ?n + 1"
      by (simp add: unat_word_ariths)
    then have aok: "array_ok ?s'"
      using d_eq by (simp add: array_ok_def)
    have pre: "prefix (ladder s) (ladder ?s')"
      using d_eq by (simp add: ladder_def)
    have fib: "fib_ok (ladder ?s')" if f: "fib_ok (ladder s)"
    proof -
      from c1 i have u1: "unat (array_size s - 1) < unat (array_size s)"
        by (simp add: data_at_def split: if_splits)
      from c4 i have u4: "unat (array_size s - 4) < unat (array_size s)"
        by (simp add: data_at_def split: if_splits)
      from unat_sub_index [OF u1] i have i1: "unat (array_size s - 1) = ?n - 1" "1 \<le> ?n"
        by simp_all
      from unat_sub_index [OF u4] i have i4: "unat (array_size s - 4) = ?n - 4" "4 \<le> ?n"
        by simp_all
      from c1 i1 have c1_eq: "c1 = array_cells s ! (?n - 1)"
        by (simp add: data_at_def split: if_splits)
      from c4 i4 have c4_eq: "c4 = array_cells s ! (?n - 4)"
        by (simp add: data_at_def split: if_splits)
      from f i1 i4 have v1: "unat (cell_size c1) = fibg (?n - 1)"
        and v4: "unat (cell_size c4) = fibg (?n - 4)"
        by (simp_all add: fib_ok_def ladder_def c1_eq c4_eq)
      have "fibg ?n < 2 ^ 64"
        using small d_eq by (simp add: ladder_nowrap_def)
      moreover have "fibg ?n = fibg (?n - 1) + fibg (?n - 4)"
        using i4 by (simp add: fibg_rec)
      ultimately have "unat (cell_size c1 + cell_size c4) = fibg ?n"
        using v1 v4 by (simp add: unat_word_ariths)
      with f show ?thesis
        by (auto simp: fib_ok_def ladder_def d_eq nth_append less_Suc_eq)
    qed
    from aok pre fib show ?thesis by blast
  qed
  from len rest show ?thesis
    by (simp add: ladder_step_def)
qed

lemma ladder_steps:
  "(\<forall>x s p s'. mem_alloc k x s = Some (p, s') \<longrightarrow> ladder_step s s') \<and>
   (\<forall>s i n i' s'. mem_alloc_grow k s i n = Some (i', s') \<longrightarrow> ladder_step s s') \<and>
   (\<forall>s s'. array_inc_size k s = Some s' \<longrightarrow> ladder_step s s')"
  by (rule alloc_ladder_induct)
     (auto intro: ladder_step_refl ladder_step_trans ladder_step_same ladder_step_append)

lemma mem_alloc_ladder_step: "mem_alloc k x s = Some (p, s') \<Longrightarrow> ladder_step s s'"
  using ladder_steps by blast



lemma array_init_loop_seed:
  "array_init_loop 4 7
     [\<lparr>cell_size = MIN_SIZE, cell_items = NULL\<rparr>, \<lparr>cell_size = SIZE_1, cell_items = NULL\<rparr>,
      \<lparr>cell_size = SIZE_2, cell_items = NULL\<rparr>, \<lparr>cell_size = SIZE_3, cell_items = NULL\<rparr>]
   = Some (map (\<lambda>n. \<lparr>cell_size = n, cell_items = NULL\<rparr>) [3, 4, 5, 7, 10, 14, 19, 26, 36, 50, 69])"
  by (simp add: array_init_loop.simps data_at_def)

lemma mem_init_array:
  assumes "mem_init h0 brk0 = Some s"
  shows "array_cells s = map (\<lambda>n. \<lparr>cell_size = n, cell_items = NULL\<rparr>)
                           [3, 4, 5, 7, 10, 14, 19, 26, 36, 50, 69]"
    and "array_size s = ARRAY_INIT_SIZE" and "array_capacity s = ARRAY_INIT_CAPACITY"
  using assms
  by (auto simp: mem_init_def array_init_def Let_def array_init_loop_seed split: bind_splits)

lemma fibg_values:
  "fibg 1 = 4" "fibg 2 = 5" "fibg 3 = 7" "fibg 4 = 10" "fibg 5 = 14" "fibg 6 = 19" "fibg 7 = 26" "fibg 8 = 36" "fibg 9 = 50"
  "fibg 10 = 69" "fibg 11 = 95"
  by (simp_all add: eval_nat_numeral)

lemma fib_ok_init: "fib_ok [3, 4, 5, 7, 10, 14, 19, 26, 36, 50, 69]"
  unfolding fib_ok_def by (simp add: All_less_Suc)

text \<open>The invariant of the ladder that every public operation keeps.\<close>

definition ladder_inv :: "state \<Rightarrow> bool" where
  "ladder_inv s \<longleftrightarrow>
     array_ok s \<and> 11 \<le> length (array_cells s) \<and> fib_ok (ladder s) \<and> ladder_nowrap s"

lemma mem_init_ladder_inv: "mem_init h0 brk0 = Some s \<Longrightarrow> ladder_inv s"
  by (frule mem_init_array(1), frule mem_init_array(2))
     (simp add: ladder_inv_def array_ok_def ladder_def fib_ok_init ladder_nowrap_def fibg_values comp_def)

lemma ladder_step_inv:
  assumes "ladder_step s s'" and "ladder_inv s" and "ladder_nowrap s'"
  shows "ladder_inv s'"
  using assms unfolding ladder_step_def ladder_inv_def by auto

inductive reach :: "addr set \<Rightarrow> state \<Rightarrow> bool" where
  init: "mem_init h0 brk0 = Some s \<Longrightarrow> reach {} s"
| alloc: "reach A s \<Longrightarrow> mem_alloc k x s = Some (p, s') \<Longrightarrow> reach (insert p A) s'"
| free: "reach A s \<Longrightarrow> p \<in> A \<Longrightarrow> mem_free k p s = Some s' \<Longrightarrow> reach (A - {p}) s'"

lemma reach_ladder_inv: "reach A s \<Longrightarrow> ladder_nowrap s \<Longrightarrow> ladder_inv s"
proof (induction rule: reach.induct)
  case (init h0 brk0 s)
  then show ?case by (simp add: mem_init_ladder_inv)
next
  case (alloc A s k x p s')
  from alloc.hyps(2) have st: "ladder_step s s'"
    by (rule mem_alloc_ladder_step)
  then have "length (array_cells s) \<le> length (array_cells s')"
    by (simp add: ladder_step_def)
  with alloc.prems have "ladder_nowrap s"
    by (rule ladder_nowrap_mono)
  with alloc.IH have "ladder_inv s" .
  with st show ?case
    using alloc.prems by (rule ladder_step_inv)
next
  case (free A s p k s')
  from free.hyps(3) have same: "same_array s s'"
    by (rule mem_free_same)
  then have "length (array_cells s) = length (array_cells s')"
    by (metis same_array_def length_ladder)
  with free.prems have "ladder_nowrap s"
    by (simp add: ladder_nowrap_def)
  with free.IH have "ladder_inv s" .
  with same free.prems show ?case
    by (simp add: ladder_inv_def same_array_def array_ok_def fib_ok_def flip: length_ladder)
qed

lemma ladder_inv_nth:
  assumes "ladder_inv s" and "i < length (array_cells s)"
  shows "unat (cell_size (array_cells s ! i)) = fibg i" and "fibg i < 2 ^ 64"
proof -
  from assms show "unat (cell_size (array_cells s ! i)) = fibg i"
    by (simp add: ladder_inv_def fib_ok_def ladder_def)
  from assms have "fibg i \<le> fibg (length (array_cells s) - 1)"
    by (intro fibg_mono) simp
  with assms show "fibg i < 2 ^ 64"
    by (simp add: ladder_inv_def ladder_nowrap_def)
qed

text \<open>The state after \<^verbatim>\<open>mem_init\<close> and \<^verbatim>\<open>mem_alloc(1)\<close> on a zeroed host.\<close>

definition after_alloc_1 :: state where
  "after_alloc_1 = snd (the (Option.bind fresh_state (mem_alloc 3 1)))"

lemma reach_after_alloc_1: "reach {4680} after_alloc_1"
proof -
  obtain s0 where s0: "mem_init (\<lambda>_. 0) 4096 = Some s0"
    using fresh_state_eq by (simp add: fresh_state_def)
  with fresh_alloc_1 have a: "mem_alloc 3 1 s0 = Some (4680, after_alloc_1)"
    by (simp add: fresh_state_def after_alloc_1_def)
  from reach.alloc [OF reach.init [OF s0] a] show ?thesis
    by simp
qed

text \<open>
  The state after \<^verbatim>\<open>mem_init\<close> and \<^verbatim>\<open>mem_alloc(3974807624)\<close> on a zeroed host.  The request
  needs 496850954 blocks, the term of index 59; the array moves once on the way, and the
  ladder ends with the term 685792227 of index 60.
\<close>

definition after_alloc_big :: state where
  "after_alloc_big = snd (the (Option.bind fresh_state (mem_alloc 100 3974807624)))"

lemma fresh_alloc_big:
  "map_option (\<lambda>(p, s). (p, array_size s, ladder s))
     (Option.bind fresh_state (mem_alloc 100 3974807624))
   = Some (8504, 61,
       [3, 4, 5, 7, 10, 14, 19, 26, 36, 50, 69, 95, 131, 181, 250, 345, 476, 657, 907,
        1252, 1728, 2385, 3292, 4544, 6272, 8657, 11949, 16493, 22765, 31422, 43371,
        59864, 82629, 114051, 157422, 217286, 299915, 413966, 571388, 788674, 1088589,
        1502555, 2073943, 2862617, 3951206, 5453761, 7527704, 10390321, 14341527,
        19795288, 27322992, 37713313, 52054840, 71850128, 99173120, 136886433,
        188941273, 260791401, 359964521, 496850954, 685792227])"
  unfolding fresh_state_eq
  by (simp add: run_defs ladder_def split del: if_split cong: bind_weak_cong let_weak_cong)

lemma after_alloc_big:
  "Option.bind fresh_state (mem_alloc 100 3974807624) = Some (8504, after_alloc_big)"
  "array_size after_alloc_big = 61" "length (array_cells after_alloc_big) = 61"
proof -
  from fresh_alloc_big obtain p s where
    r: "Option.bind fresh_state (mem_alloc 100 3974807624) = Some (p, s)"
    and p: "p = 8504" and sz: "array_size s = 61" and l: "length (array_cells s) = 61"
    by (auto simp: map_option_case split: option.splits simp flip: length_ladder)
  from r have s: "after_alloc_big = s"
    by (simp add: after_alloc_big_def)
  from r p s show "Option.bind fresh_state (mem_alloc 100 3974807624) = Some (8504, after_alloc_big)"
    by simp
  from sz s show "array_size after_alloc_big = 61"
    by simp
  from l s show "length (array_cells after_alloc_big) = 61"
    by simp
qed

lemma reach_after_alloc_big: "reach {8504} after_alloc_big"
proof -
  obtain s0 where fs: "fresh_state = Some s0"
    using fresh_state_eq by simp
  then have "mem_init (\<lambda>_. 0) 4096 = Some s0"
    by (simp only: fresh_state_def)
  then have r: "reach {} s0"
    by (rule reach.init)
  from after_alloc_big(1) have "mem_alloc 100 3974807624 s0 = Some (8504, after_alloc_big)"
    by (simp only: fs bind.simps)
  from reach.alloc [OF r this] show ?thesis
    by simp
qed

lemma nowrap_after_alloc_big: "ladder_nowrap after_alloc_big"
  using fibg_upper [of 60] by (simp add: ladder_nowrap_def after_alloc_big(3))

text \<open>
  Claim C4.  In every state reached from \<^verbatim>\<open>mem_init\<close> by calls of \<^verbatim>\<open>mem_alloc\<close> and
  \<^verbatim>\<open>mem_free\<close> that return, each cell from index 4 on holds the sum of the sizes of the cells
  one and four places before it, and the sizes grow strictly with the index, as long as the
  last term of the ladder has not wrapped around in \<^verbatim>\<open>uintptr_t\<close> (\<open>ladder_nowrap\<close>, a
  ladder of up to 134 cells).  The predicate \<open>reach\<close> puts no condition on the calls
  other than that they return.
\<close>

theorem ladder_consistent:
  assumes "reach A s" and "ladder_nowrap s"
  shows "(\<forall>i. 4 \<le> i \<and> i < unat (array_size s) \<longrightarrow>
            cell_size (array_cells s ! i)
              = cell_size (array_cells s ! (i - 1)) + cell_size (array_cells s ! (i - 4))) \<and>
         (\<forall>i j. i < j \<and> j < unat (array_size s) \<longrightarrow>
            cell_size (array_cells s ! i) < cell_size (array_cells s ! j))"
proof -
  from assms have inv: "ladder_inv s"
    by (rule reach_ladder_inv)
  then have sz: "unat (array_size s) = length (array_cells s)"
    by (simp add: ladder_inv_def array_ok_def)
  have rec: "cell_size (array_cells s ! i)
               = cell_size (array_cells s ! (i - 1)) + cell_size (array_cells s ! (i - 4))"
    if "4 \<le> i" "i < length (array_cells s)" for i
  proof -
    from that have "fibg i = fibg (i - 1) + fibg (i - 4)"
      by (simp add: fibg_rec)
    moreover from that ladder_inv_nth [OF inv, of i] ladder_inv_nth [OF inv, of "i - 1"]
      ladder_inv_nth [OF inv, of "i - 4"]
    have "unat (cell_size (array_cells s ! i)) = fibg i"
      "unat (cell_size (array_cells s ! (i - 1))) = fibg (i - 1)"
      "unat (cell_size (array_cells s ! (i - 4))) = fibg (i - 4)"
      "fibg i < 2 ^ 64"
      by simp_all
    ultimately have "unat (cell_size (array_cells s ! i))
        = unat (cell_size (array_cells s ! (i - 1)) + cell_size (array_cells s ! (i - 4)))"
      by (simp add: unat_word_ariths)
    then show ?thesis
      by (simp add: word_unat_eq_iff)
  qed
  have mono: "cell_size (array_cells s ! i) < cell_size (array_cells s ! j)"
    if "i < j" "j < length (array_cells s)" for i j
    using that ladder_inv_nth(1) [OF inv, of i] ladder_inv_nth(1) [OF inv, of j]
      fibg_strict_mono [of i j]
    by (simp add: word_less_nat_alt)
  from rec mono sz show ?thesis
    by simp
qed

theorem ladder_consistent_witness:
  "reach {8504} after_alloc_big \<and> ladder_nowrap after_alloc_big \<and>
   unat (array_size after_alloc_big) = 61 \<and>
   cell_size (array_cells after_alloc_big ! 60)
     = cell_size (array_cells after_alloc_big ! 59) + cell_size (array_cells after_alloc_big ! 56) \<and>
   cell_size (array_cells after_alloc_big ! 59) < cell_size (array_cells after_alloc_big ! 60)"
proof -
  have sz: "unat (array_size after_alloc_big) = 61"
    using after_alloc_big by simp
  from ladder_consistent [OF reach_after_alloc_big nowrap_after_alloc_big]
  have "(4::nat) \<le> 60 \<and> 60 < unat (array_size after_alloc_big) \<longrightarrow>
          cell_size (array_cells after_alloc_big ! 60)
            = cell_size (array_cells after_alloc_big ! (60 - 1))
              + cell_size (array_cells after_alloc_big ! (60 - 4))"
    and "(59::nat) < 60 \<and> 60 < unat (array_size after_alloc_big) \<longrightarrow>
          cell_size (array_cells after_alloc_big ! 59) < cell_size (array_cells after_alloc_big ! 60)"
    by blast+
  with sz reach_after_alloc_big nowrap_after_alloc_big show ?thesis
    by simp
qed

section \<open>Growth before a chunk is drawn (claim C9)\<close>










end
